theory Spec2Isabelle
  imports Complex_Main
begin

section \<open>Data model of \<^verbatim>\<open>chess_game.py\<close>\<close>

text \<open>
  A piece is the Python tuple \<^verbatim>\<open>(color, type)\<close> with \<^verbatim>\<open>color\<close> one of
  \<^verbatim>\<open>'w'\<close>, \<^verbatim>\<open>'b'\<close> and \<^verbatim>\<open>type\<close> one of \<^verbatim>\<open>'P' 'N' 'B' 'R' 'Q' 'K'\<close>; a cell
  of the grid holds such a tuple or \<^verbatim>\<open>None\<close>. Coordinates are Python integers
  (unbounded, possibly negative), so they are \<^typ>\<open>int\<close>.
\<close>

datatype color = White | Black

datatype ptype = Pawn | Knight | Bishop | Rook | Queen | King

type_synonym piece = "color \<times> ptype"
type_synonym cell = "piece option"
type_synonym grid = "cell list list"
type_synonym square = "int \<times> int"
type_synonym move = "square \<times> square"

definition ROWS :: int where "ROWS = 8"
definition COLS :: int where "COLS = 8"

text \<open>\<^verbatim>\<open>MATERIAL_VALUES\<close>; every key of the table is a constructor of \<^typ>\<open>ptype\<close>,
  so the default \<^verbatim>\<open>0\<close> of \<^verbatim>\<open>.get(ptype, 0)\<close> is never taken.\<close>

fun MATERIAL_VALUES :: "ptype \<Rightarrow> int" where
  "MATERIAL_VALUES Pawn = 1"
| "MATERIAL_VALUES Knight = 3"
| "MATERIAL_VALUES Bishop = 3"
| "MATERIAL_VALUES Rook = 5"
| "MATERIAL_VALUES Queen = 9"
| "MATERIAL_VALUES King = 0"

section \<open>Class \<^verbatim>\<open>Board\<close>, as functions of the value of \<^verbatim>\<open>self.grid\<close>\<close>

text \<open>
  The methods below take the nested list \<^verbatim>\<open>self.grid\<close> as a value and the mutators
  return the new value (state passing). The object graph behind one board, and what
  \<^verbatim>\<open>clone\<close> does to it, is modelled in the section on the store further down.

  \<^verbatim>\<open>Board.__init__\<close>, \<^verbatim>\<open>reset\<close> and \<^verbatim>\<open>clone\<close> only ever build grids of 8 rows of
  8 cells (\<open>wf_grid\<close>). On such a grid every index that passes \<^verbatim>\<open>in_bounds\<close> is in
  range, so the indexing \<^verbatim>\<open>self.grid[r][c]\<close> has no IndexError branch.
\<close>

definition wf_grid :: "grid \<Rightarrow> bool" where
  "wf_grid g = (length g = 8 \<and> list_all (\<lambda>row. length row = 8) g)"

definition in_bounds :: "int \<Rightarrow> int \<Rightarrow> bool" where
  "in_bounds r c = (0 \<le> r \<and> r < ROWS \<and> 0 \<le> c \<and> c < COLS)"

definition get :: "grid \<Rightarrow> int \<Rightarrow> int \<Rightarrow> cell" where
  "get g r c = (if \<not> in_bounds r c then None else g ! nat r ! nat c)"

definition set_sq :: "grid \<Rightarrow> int \<Rightarrow> int \<Rightarrow> cell \<Rightarrow> grid" where
  "set_sq g r c piece =
     (if in_bounds r c then g[nat r := (g ! nat r)[nat c := piece]] else g)"

text \<open>\<^verbatim>\<open>move_piece(src, dst, promotion=None)\<close>. A piece tuple is never falsy, so
  \<^verbatim>\<open>if not piece: return\<close> is the test for \<^verbatim>\<open>None\<close>; \<^verbatim>\<open>promotion if promotion
  else 'Q'\<close> takes the supplied kind when there is one.\<close>

definition move_piece :: "grid \<Rightarrow> square \<Rightarrow> square \<Rightarrow> ptype option \<Rightarrow> grid" where
  "move_piece g src dst promotion =
     (let (sr, sc) = src; (dr, dc) = dst in
      case get g sr sc of
        None \<Rightarrow> g
      | Some (color, ptype) \<Rightarrow>
          let ptype' =
                (if ptype = Pawn then
                   (if color = White \<and> dr = 0 then
                      (case promotion of Some k \<Rightarrow> k | None \<Rightarrow> Queen)
                    else if color = Black \<and> dr = 7 then
                      (case promotion of Some k \<Rightarrow> k | None \<Rightarrow> Queen)
                    else ptype)
                 else ptype);
              g1 = set_sq g dr dc (Some (color, ptype'))
          in set_sq g1 sr sc None)"

text \<open>\<^verbatim>\<open>reset\<close> replaces all eight rows, whatever the grid held before.\<close>

definition back_rank :: "color \<Rightarrow> cell list" where
  "back_rank col =
     [Some (col, Rook), Some (col, Knight), Some (col, Bishop), Some (col, Queen),
      Some (col, King), Some (col, Bishop), Some (col, Knight), Some (col, Rook)]"

definition reset :: "grid \<Rightarrow> grid" where
  "reset g =
     (let g0 = g[0 := back_rank Black];
          g1 = g0[1 := replicate 8 (Some (Black, Pawn))];
          g2 = fold (\<lambda>r acc. acc[r := replicate 8 None]) [2..<6] g1;
          g3 = g2[6 := replicate 8 (Some (White, Pawn))]
      in g3[7 := back_rank White])"

text \<open>\<^verbatim>\<open>Board.__init__\<close>: an 8 by 8 grid of \<^verbatim>\<open>None\<close>, then \<^verbatim>\<open>reset\<close>.\<close>

definition new_board :: grid where
  "new_board = reset (replicate 8 (replicate 8 None))"

text \<open>\<^verbatim>\<open>material_score\<close>: the two nested \<^verbatim>\<open>for\<close> loops over \<^verbatim>\<open>range(ROWS)\<close> and
  \<^verbatim>\<open>range(COLS)\<close>, with the running \<^verbatim>\<open>score\<close> as accumulator.\<close>

definition score_cell :: "color \<Rightarrow> cell \<Rightarrow> int \<Rightarrow> int" where
  "score_cell color piece score =
     (case piece of
        None \<Rightarrow> score
      | Some (pcolor, ptype) \<Rightarrow>
          let val = MATERIAL_VALUES ptype
          in score + (if pcolor = color then val else - val))"

definition material_score :: "grid \<Rightarrow> color \<Rightarrow> int" where
  "material_score g color =
     fold (\<lambda>r score. fold (\<lambda>c score. score_cell color (g ! r ! c) score) [0..<8] score)
       [0..<8] 0"

text \<open>\<^verbatim>\<open>clone\<close> returns a board whose grid has the same value (\<^verbatim>\<open>deepcopy\<close>). What
  makes the copy independent is a matter of the store: see \<open>Board_clone\<close> below.\<close>

definition clone :: "grid \<Rightarrow> grid" where
  "clone g = g"

text \<open>Two notions used to state properties of \<open>move_piece\<close>: the type the moved piece
  has when it is written to the destination (the promotion rule of \<open>move_piece\<close>), and
  the number of occupied cells of a grid.\<close>

definition promoted :: "color \<Rightarrow> ptype \<Rightarrow> int \<Rightarrow> ptype option \<Rightarrow> ptype" where
  "promoted color ptype dr promotion =
     (if ptype = Pawn \<and> (color = White \<and> dr = 0 \<or> color = Black \<and> dr = 7)
      then (case promotion of Some k \<Rightarrow> k | None \<Rightarrow> Queen) else ptype)"

definition piece_count :: "grid \<Rightarrow> nat" where
  "piece_count g = sum_list (map (\<lambda>row. length (filter (\<lambda>cell. cell \<noteq> None) row)) g)"

section \<open>Class \<^verbatim>\<open>Rules\<close>: move generation per piece\<close>

definition is_enemy :: "cell \<Rightarrow> color \<Rightarrow> bool" where
  "is_enemy piece color = (case piece of None \<Rightarrow> False | Some p \<Rightarrow> fst p \<noteq> color)"

definition is_empty :: "cell \<Rightarrow> bool" where
  "is_empty piece = (piece = None)"

text \<open>\<^verbatim>\<open>_pawn_moves\<close>. The capture loop \<^verbatim>\<open>for dc in (-1, 1)\<close> is \<open>pawn_captures\<close>,
  with the list \<^verbatim>\<open>moves\<close> as accumulator.\<close>

fun pawn_captures :: "grid \<Rightarrow> color \<Rightarrow> int \<Rightarrow> int \<Rightarrow> int \<Rightarrow> int list \<Rightarrow> move list \<Rightarrow> move list" where
  "pawn_captures g color r c dir_forward [] moves = moves"
| "pawn_captures g color r c dir_forward (dc # dcs) moves =
     (let cr = r + dir_forward; cc = c + dc in
      pawn_captures g color r c dir_forward dcs
        (if in_bounds cr cc then
           (let target = get g cr cc in
            if is_enemy target color then moves @ [((r, c), (cr, cc))] else moves)
         else moves))"

definition pawn_forward :: "grid \<Rightarrow> color \<Rightarrow> int \<Rightarrow> int \<Rightarrow> move list" where
  "pawn_forward g color r c =
     (let dir_forward = (if color = White then - 1 else 1);
          start_row = (if color = White then 6 else 1);
          nr = r + dir_forward; nc = c in
      if in_bounds nr nc \<and> get g nr nc = None then
        (let moves = [((r, c), (nr, nc))];
             nr2 = nr + dir_forward in
         if r = start_row \<and> in_bounds nr2 nc \<and> get g nr2 nc = None
         then moves @ [((r, c), (nr2, nc))] else moves)
      else [])"

definition pawn_moves :: "grid \<Rightarrow> int \<Rightarrow> int \<Rightarrow> piece \<Rightarrow> move list" where
  "pawn_moves g r c piece =
     (let color = fst piece;
          dir_forward = (if color = White then - 1 else 1)
      in pawn_captures g color r c dir_forward [- 1, 1] (pawn_forward g color r c))"

text \<open>\<^verbatim>\<open>_knight_moves\<close> and \<^verbatim>\<open>_king_moves\<close> run the same loop body over a list of
  offsets: skip a destination out of bounds, keep one that is empty or an enemy's.\<close>

fun step_moves :: "grid \<Rightarrow> color \<Rightarrow> int \<Rightarrow> int \<Rightarrow> (int \<times> int) list \<Rightarrow> move list \<Rightarrow> move list" where
  "step_moves g color r c [] moves = moves"
| "step_moves g color r c ((dr, dc) # deltas) moves =
     (let nr = r + dr; nc = c + dc in
      if \<not> in_bounds nr nc then step_moves g color r c deltas moves
      else
        (let target = get g nr nc in
         step_moves g color r c deltas
           (if target = None \<or> is_enemy target color then moves @ [((r, c), (nr, nc))]
            else moves)))"

definition knight_deltas :: "(int \<times> int) list" where
  "knight_deltas =
     [(- 2, - 1), (- 2, 1), (2, - 1), (2, 1), (- 1, - 2), (- 1, 2), (1, - 2), (1, 2)]"

definition knight_moves :: "grid \<Rightarrow> int \<Rightarrow> int \<Rightarrow> piece \<Rightarrow> move list" where
  "knight_moves g r c piece = step_moves g (fst piece) r c knight_deltas []"

text \<open>The double loop \<^verbatim>\<open>for dr in (-1, 0, 1): for dc in (-1, 0, 1)\<close> of
  \<^verbatim>\<open>_king_moves\<close>, with the pair \<^verbatim>\<open>(0, 0)\<close> skipped by \<^verbatim>\<open>continue\<close>.\<close>

definition king_deltas :: "(int \<times> int) list" where
  "king_deltas =
     filter (\<lambda>(dr, dc). \<not> (dr = 0 \<and> dc = 0))
       (concat (map (\<lambda>dr. map (\<lambda>dc. (dr, dc)) [- 1, 0, 1]) [- 1, 0, 1]))"

definition king_moves :: "grid \<Rightarrow> int \<Rightarrow> int \<Rightarrow> piece \<Rightarrow> move list" where
  "king_moves g r c piece = step_moves g (fst piece) r c king_deltas []"

text \<open>
  \<^verbatim>\<open>_sliding_moves\<close>. The inner \<^verbatim>\<open>while board.in_bounds(nr, nc)\<close> loop is \<open>slide\<close>;
  called with the direction \<open>(0, 0)\<close> on an empty square it never ends, so the loop
  is a partial function and not returning is the value \<open>None\<close>. \<open>sliding_dirs\<close> is the
  outer \<^verbatim>\<open>for dr, dc in directions\<close>.
\<close>

partial_function (option) slide ::
  "grid \<Rightarrow> color \<Rightarrow> square \<Rightarrow> int \<times> int \<Rightarrow> int \<Rightarrow> int \<Rightarrow> move list \<Rightarrow> move list option" where
  "slide g color src d nr nc moves =
     (if in_bounds nr nc then
        (case get g nr nc of
           None \<Rightarrow> slide g color src d (nr + fst d) (nc + snd d) (moves @ [(src, (nr, nc))])
         | Some target \<Rightarrow>
             Some (if is_enemy (Some target) color then moves @ [(src, (nr, nc))] else moves))
      else Some moves)"

declare slide.simps [code]

fun sliding_dirs ::
  "grid \<Rightarrow> color \<Rightarrow> int \<Rightarrow> int \<Rightarrow> (int \<times> int) list \<Rightarrow> move list \<Rightarrow> move list option" where
  "sliding_dirs g color r c [] moves = Some moves"
| "sliding_dirs g color r c ((dr, dc) # directions) moves =
     (case slide g color (r, c) (dr, dc) (r + dr) (c + dc) moves of
        None \<Rightarrow> None
      | Some moves' \<Rightarrow> sliding_dirs g color r c directions moves')"

definition sliding_moves ::
  "grid \<Rightarrow> int \<Rightarrow> int \<Rightarrow> piece \<Rightarrow> (int \<times> int) list \<Rightarrow> move list option" where
  "sliding_moves g r c piece directions = sliding_dirs g (fst piece) r c directions []"

definition bishop_directions :: "(int \<times> int) list" where
  "bishop_directions = [(- 1, - 1), (- 1, 1), (1, - 1), (1, 1)]"

definition rook_directions :: "(int \<times> int) list" where
  "rook_directions = [(- 1, 0), (1, 0), (0, - 1), (0, 1)]"

definition queen_directions :: "(int \<times> int) list" where
  "queen_directions =
     [(- 1, - 1), (- 1, 1), (1, - 1), (1, 1), (- 1, 0), (1, 0), (0, - 1), (0, 1)]"

text \<open>The \<^verbatim>\<open>if/elif\<close> chain on the piece type in \<^verbatim>\<open>generate_legal_moves\<close>.\<close>

definition piece_moves :: "grid \<Rightarrow> int \<Rightarrow> int \<Rightarrow> piece \<Rightarrow> move list option" where
  "piece_moves g r c piece =
     (case snd piece of
        Pawn \<Rightarrow> Some (pawn_moves g r c piece)
      | Knight \<Rightarrow> Some (knight_moves g r c piece)
      | Bishop \<Rightarrow> sliding_moves g r c piece bishop_directions
      | Rook \<Rightarrow> sliding_moves g r c piece rook_directions
      | Queen \<Rightarrow> sliding_moves g r c piece queen_directions
      | King \<Rightarrow> Some (king_moves g r c piece))"

text \<open>\<^verbatim>\<open>generate_legal_moves\<close>: the scan \<^verbatim>\<open>for r in range(ROWS): for c in range(COLS)\<close>,
  the list \<^verbatim>\<open>moves\<close> extended in place. \<open>None\<close> is "does not return".\<close>

fun scan_cols :: "grid \<Rightarrow> color \<Rightarrow> int \<Rightarrow> int list \<Rightarrow> move list \<Rightarrow> move list option" where
  "scan_cols g turn_color r [] moves = Some moves"
| "scan_cols g turn_color r (c # cs) moves =
     (case get g r c of
        None \<Rightarrow> scan_cols g turn_color r cs moves
      | Some piece \<Rightarrow>
          if fst piece = turn_color then
            (case piece_moves g r c piece of
               None \<Rightarrow> None
             | Some ms \<Rightarrow> scan_cols g turn_color r cs (moves @ ms))
          else scan_cols g turn_color r cs moves)"

fun scan_rows :: "grid \<Rightarrow> color \<Rightarrow> int list \<Rightarrow> move list \<Rightarrow> move list option" where
  "scan_rows g turn_color [] moves = Some moves"
| "scan_rows g turn_color (r # rs) moves =
     (case scan_cols g turn_color r [0, 1, 2, 3, 4, 5, 6, 7] moves of
        None \<Rightarrow> None
      | Some moves' \<Rightarrow> scan_rows g turn_color rs moves')"

definition generate_legal_moves :: "grid \<Rightarrow> color \<Rightarrow> move list option" where
  "generate_legal_moves g turn_color = scan_rows g turn_color [0, 1, 2, 3, 4, 5, 6, 7] []"

text \<open>
  Notions used to state and prove properties of the generator: what a generated move
  must satisfy at its destination (\<open>dest_ok\<close>), the number of steps a ray has left
  before it leaves the board (\<open>ray_measure\<close>), the moves the scan appends at one square
  (\<open>square_moves\<close>) and over the whole board (\<open>all_moves\<close>).
\<close>

definition dest_ok :: "grid \<Rightarrow> color \<Rightarrow> square \<Rightarrow> move \<Rightarrow> bool" where
  "dest_ok g color src m =
     (fst m = src \<and> in_bounds (fst (snd m)) (snd (snd m)) \<and>
      (get g (fst (snd m)) (snd (snd m)) = None \<or>
       is_enemy (get g (fst (snd m)) (snd (snd m))) color))"

definition ray_measure :: "int \<times> int \<Rightarrow> int \<Rightarrow> int \<Rightarrow> nat" where
  "ray_measure d nr nc =
     (if 0 < fst d then nat (8 - nr) else if fst d < 0 then nat (nr + 1)
      else if 0 < snd d then nat (8 - nc) else nat (nc + 1))"

definition square_moves :: "grid \<Rightarrow> color \<Rightarrow> int \<Rightarrow> int \<Rightarrow> move list" where
  "square_moves g turn_color r c =
     (case get g r c of
        None \<Rightarrow> []
      | Some piece \<Rightarrow>
          if fst piece = turn_color then
            (case piece_moves g r c piece of None \<Rightarrow> [] | Some ms \<Rightarrow> ms)
          else [])"

definition all_moves :: "grid \<Rightarrow> color \<Rightarrow> move list" where
  "all_moves g turn_color =
     concat (map (\<lambda>r. concat (map (square_moves g turn_color r) [0, 1, 2, 3, 4, 5, 6, 7]))
       [0, 1, 2, 3, 4, 5, 6, 7])"

text \<open>The board of the rook example: every square empty but \<open>(3, 3)\<close>, which holds a
  rook of the given colour.\<close>

definition lone_rook :: "color \<Rightarrow> grid" where
  "lone_rook color = set_sq (replicate 8 (replicate 8 None)) 3 3 (Some (color, Rook))"

section \<open>Class \<^verbatim>\<open>SimpleAI\<close>\<close>

text \<open>
  \<^verbatim>\<open>random.choice(seq)\<close> raises IndexError on an empty sequence and otherwise returns
  the item at an index below \<^verbatim>\<open>len(seq)\<close> drawn by the generator. The draw is the
  parameter \<open>draw\<close>: any natural number, reduced modulo the length, so that every index
  is the outcome of some draw and every draw gives an index.
\<close>

datatype py_error = IndexError

definition random_choice :: "nat \<Rightarrow> 'a list \<Rightarrow> py_error + 'a" where
  "random_choice draw xs =
     (if xs = [] then Inl IndexError else Inr (xs ! (draw mod length xs)))"

text \<open>
  The body of the scoring loop for one move. The source computes
  \<^verbatim>\<open>material_score + 0.1 * capture_bonus\<close> in binary floating point; the model uses the
  exact rational \<open>material_score + capture_bonus / 10\<close>. The two values differ by the
  rounding of the float (\<^verbatim>\<open>0.1 * 3\<close> is \<^verbatim>\<open>0.30000000000000004\<close>, not \<open>3/10\<close>), so
  \<open>eval_score\<close> gives the source's scores only up to that rounding. What the selection
  loop uses is their order and their ties: the material balance is an integer of a few
  hundred at most and the bonus one of 0, 1, 3, 5, 9, so two different exact scores are
  at least \<open>1/10\<close> apart, far more than the rounding, and two equal exact scores come
  from the same balance and bonus, hence from the same float. \<^verbatim>\<open>best_score\<close> starts at
  \<^verbatim>\<open>-math.inf\<close>, which is \<open>None\<close> here: every score is greater.
\<close>

definition eval_score :: "grid \<Rightarrow> color \<Rightarrow> move \<Rightarrow> rat" where
  "eval_score g color mv =
     (let (src, dst) = mv; (dr, dc) = dst;
          captured = get g dr dc;
          capture_bonus = (case captured of Some cp \<Rightarrow> MATERIAL_VALUES (snd cp) | None \<Rightarrow> 0);
          sim = clone g;
          sim' = move_piece sim src dst None
      in of_int (material_score sim' color) + (1 / 10) * of_int capture_bonus)"

fun best_loop ::
  "grid \<Rightarrow> color \<Rightarrow> move list \<Rightarrow> rat option \<times> move list \<Rightarrow> rat option \<times> move list" where
  "best_loop g color [] st = st"
| "best_loop g color (mv # mvs) (best_score, best_moves) =
     (let e = eval_score g color mv in
      best_loop g color mvs
        (if (case best_score of None \<Rightarrow> True | Some b \<Rightarrow> e > b) then (Some e, [mv])
         else if best_score = Some e then (best_score, best_moves @ [mv])
         else (best_score, best_moves)))"

fun capture_loop :: "grid \<Rightarrow> move list \<Rightarrow> move list \<times> int \<Rightarrow> move list \<times> int" where
  "capture_loop g [] st = st"
| "capture_loop g (mv # mvs) (capture_best, cap_best_val) =
     (let (dr, dc) = snd mv; cap = get g dr dc in
      capture_loop g mvs
        (case cap of
           None \<Rightarrow> (capture_best, cap_best_val)
         | Some cp \<Rightarrow>
             (let val = MATERIAL_VALUES (snd cp) in
              if val > cap_best_val then ([mv], val)
              else if val = cap_best_val then (capture_best @ [mv], cap_best_val)
              else (capture_best, cap_best_val))))"

text \<open>
  \<^verbatim>\<open>choose_move\<close>. The result is \<open>None\<close> when the move generator does not return,
  \<open>Some (Inl e)\<close> when an exception \<open>e\<close> is raised, \<open>Some (Inr None)\<close> for the Python
  value \<^verbatim>\<open>None\<close> and \<open>Some (Inr (Some mv))\<close> for a move.
\<close>

definition choose_move :: "grid \<Rightarrow> color \<Rightarrow> nat \<Rightarrow> (py_error + move option) option" where
  "choose_move g color draw =
     (case generate_legal_moves g color of
        None \<Rightarrow> None
      | Some moves \<Rightarrow>
          Some
            (if moves = [] then Inr None
             else
               (let (best_score, best_moves) = best_loop g color moves (None, []);
                    (capture_best, cap_best_val) = capture_loop g best_moves ([], 0)
                in if capture_best \<noteq> [] then map_sum id Some (random_choice draw capture_best)
                   else map_sum id Some (random_choice draw best_moves))))"

section \<open>The store: boards as objects\<close>

text \<open>
  A \<^verbatim>\<open>Board\<close> object has one attribute, \<^verbatim>\<open>grid\<close>, a reference to a list object whose
  eight items are references to row list objects, whose items are the cells (immutable
  tuples or \<^verbatim>\<open>None\<close>). The store keeps the three classes of objects apart; an address
  is an index into the component of its class and allocation appends.
\<close>

type_synonym ref = nat

record heap =
  boards :: "ref list"
  grids :: "ref list list"
  rows :: "cell list list"

definition wf_board :: "heap \<Rightarrow> ref \<Rightarrow> bool" where
  "wf_board h b =
     (b < length (boards h) \<and> boards h ! b < length (grids h) \<and>
      length (grids h ! (boards h ! b)) = 8 \<and>
      list_all (\<lambda>ra. ra < length (rows h) \<and> length (rows h ! ra) = 8)
        (grids h ! (boards h ! b)))"

text \<open>The value of \<^verbatim>\<open>self.grid\<close> of the board at \<open>b\<close>, read through the references.\<close>

definition grid_of :: "heap \<Rightarrow> ref \<Rightarrow> grid" where
  "grid_of h b = map (\<lambda>ra. rows h ! ra) (grids h ! (boards h ! b))"

definition Board_get :: "heap \<Rightarrow> ref \<Rightarrow> int \<Rightarrow> int \<Rightarrow> cell" where
  "Board_get h b r c = get (grid_of h b) r c"

definition Board_material_score :: "heap \<Rightarrow> ref \<Rightarrow> color \<Rightarrow> int" where
  "Board_material_score h b color = material_score (grid_of h b) color"

text \<open>\<^verbatim>\<open>self.grid[r][c] = piece\<close> writes into the one row object \<^verbatim>\<open>self.grid[r]\<close>
  refers to.\<close>

definition Board_set :: "heap \<Rightarrow> ref \<Rightarrow> int \<Rightarrow> int \<Rightarrow> cell \<Rightarrow> heap" where
  "Board_set h b r c piece =
     (if in_bounds r c then
        (let ra = grids h ! (boards h ! b) ! nat r
         in h\<lparr>rows := (rows h)[ra := (rows h ! ra)[nat c := piece]]\<rparr>)
      else h)"

definition Board_move_piece :: "heap \<Rightarrow> ref \<Rightarrow> square \<Rightarrow> square \<Rightarrow> ptype option \<Rightarrow> heap" where
  "Board_move_piece h b src dst promotion =
     (let (sr, sc) = src; (dr, dc) = dst in
      case Board_get h b sr sc of
        None \<Rightarrow> h
      | Some (color, ptype) \<Rightarrow>
          let ptype' =
                (if ptype = Pawn then
                   (if color = White \<and> dr = 0 then
                      (case promotion of Some k \<Rightarrow> k | None \<Rightarrow> Queen)
                    else if color = Black \<and> dr = 7 then
                      (case promotion of Some k \<Rightarrow> k | None \<Rightarrow> Queen)
                    else ptype)
                 else ptype);
              h1 = Board_set h b dr dc (Some (color, ptype'))
          in Board_set h1 b sr sc None)"

text \<open>\<^verbatim>\<open>self.grid[r] = [...]\<close>: a new row object is allocated and item \<open>r\<close> of the
  list \<^verbatim>\<open>self.grid\<close> is made to refer to it.\<close>

definition assign_row :: "heap \<Rightarrow> ref \<Rightarrow> nat \<Rightarrow> cell list \<Rightarrow> heap" where
  "assign_row h b r cells =
     (let ga = boards h ! b; ra = length (rows h)
      in h\<lparr>grids := (grids h)[ga := (grids h ! ga)[r := ra]], rows := rows h @ [cells]\<rparr>)"

definition Board_reset :: "heap \<Rightarrow> ref \<Rightarrow> heap" where
  "Board_reset h b =
     (let h0 = assign_row h b 0 (back_rank Black);
          h1 = assign_row h0 b 1 (replicate 8 (Some (Black, Pawn)));
          h2 = fold (\<lambda>r acc. assign_row acc b r (replicate 8 None)) [2..<6] h1;
          h3 = assign_row h2 b 6 (replicate 8 (Some (White, Pawn)))
      in assign_row h3 b 7 (back_rank White))"

text \<open>
  \<^verbatim>\<open>deepcopy\<close> of the list of rows: every row object met for the first time is copied
  into a new object and remembered in the memo; a row object met again (two items of
  the list referring to one row) is given the copy made before. The cells are immutable
  and are shared.
\<close>

fun deepcopy_rows ::
  "cell list list \<Rightarrow> (ref \<times> ref) list \<Rightarrow> ref list \<Rightarrow> cell list list \<times> ref list" where
  "deepcopy_rows rws memo [] = (rws, [])"
| "deepcopy_rows rws memo (ra # ras) =
     (case map_of memo ra of
        Some ra' \<Rightarrow>
          (let (rws', out) = deepcopy_rows rws memo ras in (rws', ra' # out))
      | None \<Rightarrow>
          (let ra' = length rws;
               (rws', out) = deepcopy_rows (rws @ [rws ! ra]) ((ra, ra') # memo) ras
           in (rws', ra' # out)))"

text \<open>\<^verbatim>\<open>clone\<close>: a new \<^verbatim>\<open>Board\<close> object whose \<^verbatim>\<open>grid\<close> is the deep copy.\<close>

definition Board_clone :: "heap \<Rightarrow> ref \<Rightarrow> heap \<times> ref" where
  "Board_clone h b =
     (let (rws', out) = deepcopy_rows (rows h) [] (grids h ! (boards h ! b));
          ga' = length (grids h);
          b' = length (boards h)
      in (\<lparr>boards = boards h @ [ga'], grids = grids h @ [out], rows = rws'\<rparr>, b'))"

text \<open>\<^verbatim>\<open>Board()\<close>: eight new rows of \<^verbatim>\<open>None\<close>, the list of them, the object; then
  \<^verbatim>\<open>reset\<close>.\<close>

definition Board_init :: "heap \<Rightarrow> heap \<times> ref" where
  "Board_init h =
     (let n = length (rows h);
          ga = length (grids h);
          b = length (boards h);
          h1 = \<lparr>boards = boards h @ [ga],
                grids = grids h @ [map (\<lambda>i. n + i) [0..<8]],
                rows = rows h @ replicate 8 (replicate 8 None)\<rparr>
      in (Board_reset h1 b, b))"

definition empty_heap :: heap where
  "empty_heap = \<lparr>boards = [], grids = [], rows = []\<rparr>"

text \<open>The mutators of a board, and a sequence of them applied to one board.\<close>

datatype mutation = Set int int cell | MovePiece square square "ptype option" | Reset

fun mutate :: "ref \<Rightarrow> mutation \<Rightarrow> heap \<Rightarrow> heap" where
  "mutate b (Set r c piece) h = Board_set h b r c piece"
| "mutate b (MovePiece src dst promotion) h = Board_move_piece h b src dst promotion"
| "mutate b Reset h = Board_reset h b"

definition mutate_all :: "ref \<Rightarrow> mutation list \<Rightarrow> heap \<Rightarrow> heap" where
  "mutate_all b ms h = fold (mutate b) ms h"

text \<open>
  Notions used to state and prove the independence of a clone: the row objects of a
  board, two boards that share neither their list of rows nor a row (\<open>separate\<close>), two
  well-formed boards that are separate (\<open>isolated\<close>), and the invariant of the memo of
  \<open>deepcopy_rows\<close>: it maps rows of the original store to copies made since, each equal
  to its original.
\<close>

definition rows_of :: "heap \<Rightarrow> ref \<Rightarrow> ref list" where
  "rows_of h b = grids h ! (boards h ! b)"

definition separate :: "heap \<Rightarrow> ref \<Rightarrow> ref \<Rightarrow> bool" where
  "separate h b b' =
     (boards h ! b \<noteq> boards h ! b' \<and> set (rows_of h b) \<inter> set (rows_of h b') = {})"

definition isolated :: "heap \<Rightarrow> ref \<Rightarrow> ref \<Rightarrow> bool" where
  "isolated h b b' = (wf_board h b \<and> wf_board h b' \<and> separate h b b')"

definition memo_ok :: "nat \<Rightarrow> cell list list \<Rightarrow> (ref \<times> ref) list \<Rightarrow> bool" where
  "memo_ok n0 rws memo =
     (\<forall>(a, a')\<in>set memo. a < n0 \<and> n0 \<le> a' \<and> a' < length rws \<and> rws ! a' = rws ! a)"

text \<open>A board as the methods of \<^verbatim>\<open>Board\<close> build it: well formed, its eight rows eight
  different objects.\<close>

definition good_board :: "heap \<Rightarrow> ref \<Rightarrow> bool" where
  "good_board h b = (wf_board h b \<and> distinct (rows_of h b))"

section \<open>Verified properties\<close>

subsection \<open>Material score\<close>

lemma score_cell_sym: "score_cell White p a + score_cell Black p b = a + b"
proof (cases p)
  case None
  then show ?thesis by (simp add: score_cell_def)
next
  case (Some q)
  obtain pc pt where "q = (pc, pt)" by (cases q)
  with Some show ?thesis by (cases pc) (simp_all add: score_cell_def)
qed

lemma fold_cols_sym:
  "fold (\<lambda>c s. score_cell White (f c) s) cs a + fold (\<lambda>c s. score_cell Black (f c) s) cs b
   = a + b"
  by (induction cs arbitrary: a b) (simp_all add: score_cell_sym)

lemma fold_rows_sym:
  "fold (\<lambda>r s. fold (\<lambda>c s. score_cell White (h r c) s) cs s) rs a
   + fold (\<lambda>r s. fold (\<lambda>c s. score_cell Black (h r c) s) cs s) rs b = a + b"
  by (induction rs arbitrary: a b) (simp_all add: fold_cols_sym)

text \<open>
  Claim C4. For every grid, of any shape and content, the material score for White is
  the negation of the material score for Black: each piece's value is added for its own
  colour and subtracted for the other.
\<close>

theorem material_score_symmetric: "material_score g White = - material_score g Black"
  using fold_rows_sym [of "\<lambda>r c. g ! r ! c" "[0..<8]" "[0..<8]" 0 0]
  unfolding material_score_def by linarith

subsection \<open>Squares out of range\<close>

text \<open>
  Claim C8. For every grid and every pair \<open>(r, c)\<close> with \<open>r\<close> or \<open>c\<close> outside \<open>[0, 8)\<close>,
  \<open>get\<close> returns the absent piece and \<open>set\<close> returns the grid unchanged; neither indexes
  the grid, so neither can fault.
\<close>

theorem out_of_range_get_set:
  "r < 0 \<or> 8 \<le> r \<or> c < 0 \<or> 8 \<le> c \<Longrightarrow> get g r c = None \<and> set_sq g r c piece = g"
  by (auto simp: get_def set_sq_def in_bounds_def ROWS_def COLS_def)

theorem out_of_range_get_set_witness:
  "((- 1 :: int) < 0 \<or> 8 \<le> (- 1 :: int) \<or> (3 :: int) < 0 \<or> 8 \<le> (3 :: int)) \<and>
   get new_board (- 1) 3 = None \<and>
   set_sq new_board (- 1) 3 (Some (White, Queen)) = new_board"
  using out_of_range_get_set [of "- 1" 3 new_board "Some (White, Queen)"] by simp

subsection \<open>Reading and writing squares\<close>

lemma wf_grid_row: "wf_grid g \<Longrightarrow> in_bounds r c \<Longrightarrow> nat r < length g \<and> nat c < length (g ! nat r)"
  by (auto simp: wf_grid_def in_bounds_def ROWS_def COLS_def list_all_length)

lemma wf_set_sq: "wf_grid g \<Longrightarrow> wf_grid (set_sq g r c p)"
  by (auto simp: wf_grid_def set_sq_def list_all_length nth_list_update in_bounds_def ROWS_def COLS_def)

lemma get_set_same: "wf_grid g \<Longrightarrow> in_bounds r c \<Longrightarrow> get (set_sq g r c p) r c = p"
  using wf_grid_row [of g r c] by (simp add: get_def set_sq_def)

lemma get_set_other: "(r', c') \<noteq> (r, c) \<Longrightarrow> get (set_sq g r c p) r' c' = get g r' c'"
proof (cases "in_bounds r c \<and> in_bounds r' c'")
  case False
  then show ?thesis by (auto simp: get_def set_sq_def)
next
  case True
  assume ne: "(r', c') \<noteq> (r, c)"
  from True have nn: "0 \<le> r" "0 \<le> c" "0 \<le> r'" "0 \<le> c'" by (auto simp: in_bounds_def)
  show ?thesis
  proof (cases "r' = r")
    case False
    with nn have "nat r' \<noteq> nat r" by simp
    with True show ?thesis by (simp add: get_def set_sq_def)
  next
    case True
    with ne nn have cne: "nat c \<noteq> nat c'" by auto
    show ?thesis
    proof (cases "nat r < length g")
      case True
      with \<open>r' = r\<close> cne \<open>in_bounds r c \<and> in_bounds r' c'\<close> show ?thesis
        by (simp add: get_def set_sq_def)
    next
      case False
      then have "g[nat r := (g ! nat r)[nat c := p]] = g" by (intro list_update_beyond) simp
      then show ?thesis by (simp add: get_def set_sq_def)
    qed
  qed
qed

lemma move_piece_Some:
  "get g sr sc = Some (color, ptype) \<Longrightarrow>
   move_piece g (sr, sc) (dr, dc) promo =
   set_sq (set_sq g dr dc (Some (color, promoted color ptype dr promo))) sr sc None"
  by (auto simp: move_piece_def promoted_def)

lemma move_piece_None: "get g sr sc = None \<Longrightarrow> move_piece g (sr, sc) dst promo = g"
  by (cases dst) (simp add: move_piece_def)


lemma wf_new_board: "wf_grid new_board"
  by code_simp

subsection \<open>Applying a move\<close>

text \<open>
  Claim C1, as stated, fails: when the source square is empty, \<open>move_piece\<close> returns at
  its guard and the destination is not overwritten. On the starting position the move
  from the empty square \<open>(3, 3)\<close> to \<open>(0, 0)\<close> leaves the black rook on \<open>(0, 0)\<close> and
  the whole board as it was.
\<close>

theorem move_piece_empty_source_counterexample:
  "in_bounds 3 3 \<and> in_bounds 0 0 \<and> get new_board 3 3 = None \<and>
   get (move_piece new_board (3, 3) (0, 0) None) 0 0 = Some (Black, Rook) \<and>
   get (move_piece new_board (3, 3) (0, 0) None) 0 0 \<noteq> get new_board 3 3 \<and>
   move_piece new_board (3, 3) (0, 0) None = new_board"
  by code_simp

text \<open>
  Claim C1, amended. For every 8 by 8 grid and every pair of squares in range: if the
  source square is empty the grid is unchanged; if it holds a piece then afterwards the
  source square is empty, the destination (when it is another square) holds that piece,
  of the same colour and with its type replaced by the promotion rule when it is a pawn
  reaching its farthest rank, whatever the destination held before, and every other
  square holds what it held.
\<close>

theorem move_piece_relocates:
  assumes "wf_grid g" and "in_bounds sr sc" and "in_bounds dr dc"
  shows "(case get g sr sc of
            None \<Rightarrow> move_piece g (sr, sc) (dr, dc) promo = g
          | Some (color, ptype) \<Rightarrow>
              get (move_piece g (sr, sc) (dr, dc) promo) sr sc = None \<and>
              ((dr, dc) \<noteq> (sr, sc) \<longrightarrow>
                 get (move_piece g (sr, sc) (dr, dc) promo) dr dc =
                 Some (color,
                   if ptype = Pawn \<and> (color = White \<and> dr = 0 \<or> color = Black \<and> dr = 7)
                   then (case promo of Some k \<Rightarrow> k | None \<Rightarrow> Queen) else ptype)) \<and>
              (\<forall>r c. (r, c) \<noteq> (sr, sc) \<and> (r, c) \<noteq> (dr, dc) \<longrightarrow>
                 get (move_piece g (sr, sc) (dr, dc) promo) r c = get g r c))"
proof (cases "get g sr sc")
  case None
  then show ?thesis by (simp add: move_piece_None)
next
  case (Some p)
  obtain color ptype where p: "p = (color, ptype)" by (cases p)
  let ?q = "Some (color, promoted color ptype dr promo)"
  have mp: "move_piece g (sr, sc) (dr, dc) promo = set_sq (set_sq g dr dc ?q) sr sc None"
    using Some p by (simp add: move_piece_Some)
  have wf1: "wf_grid (set_sq g dr dc ?q)" using assms(1) by (rule wf_set_sq)
  have a: "get (move_piece g (sr, sc) (dr, dc) promo) sr sc = None"
    unfolding mp using wf1 assms(2) by (rule get_set_same)
  have b: "get (move_piece g (sr, sc) (dr, dc) promo) dr dc = ?q" if "(dr, dc) \<noteq> (sr, sc)"
    unfolding mp using that assms(1,3) by (simp add: get_set_other get_set_same)
  have c: "get (move_piece g (sr, sc) (dr, dc) promo) r c = get g r c"
    if "(r, c) \<noteq> (sr, sc)" "(r, c) \<noteq> (dr, dc)" for r c
    unfolding mp using that by (simp add: get_set_other)
  from a b c show ?thesis using Some p by (simp add: promoted_def)
qed

theorem move_piece_relocates_witness:
  "wf_grid new_board \<and> in_bounds 6 4 \<and> in_bounds 1 4 \<and>
   get new_board 6 4 = Some (White, Pawn) \<and> get new_board 1 4 = Some (Black, Pawn) \<and>
   get (move_piece new_board (6, 4) (1, 4) None) 6 4 = None \<and>
   get (move_piece new_board (6, 4) (1, 4) None) 1 4 = Some (White, Pawn) \<and>
   get (move_piece new_board (6, 4) (1, 4) None) 0 0 = get new_board 0 0"
proof -
  have h: "wf_grid new_board" "in_bounds 6 4" "in_bounds 1 4"
    by (simp_all add: wf_new_board in_bounds_def ROWS_def COLS_def)
  have s: "get new_board 6 4 = Some (White, Pawn)" "get new_board 1 4 = Some (Black, Pawn)"
    by code_simp+
  show ?thesis
    using h s move_piece_relocates [OF h, of None] by simp
qed

text \<open>
  Claim C3, as stated, fails for a move from a square onto itself: \<open>move_piece\<close>
  writes the promoted piece to the destination and then clears the source, which is the
  same square. Moving the white pawn of the starting position from \<open>(6, 2)\<close> to
  \<open>(0, 2)\<close> with promotion type Pawn leaves a white pawn on rank 0; moving that pawn
  from \<open>(0, 2)\<close> to \<open>(0, 2)\<close> with no promotion type leaves the square empty, not
  holding a white queen.
\<close>

theorem pawn_promotion_null_move_counterexample:
  "wf_grid (move_piece new_board (6, 2) (0, 2) (Some Pawn)) \<and>
   in_bounds 0 2 \<and>
   get (move_piece new_board (6, 2) (0, 2) (Some Pawn)) 0 2 = Some (White, Pawn) \<and>
   get (move_piece (move_piece new_board (6, 2) (0, 2) (Some Pawn)) (0, 2) (0, 2) None) 0 2
     = None \<and>
   get (move_piece (move_piece new_board (6, 2) (0, 2) (Some Pawn)) (0, 2) (0, 2) None) 0 2
     \<noteq> Some (White, Queen)"
  by code_simp

text \<open>
  Claim C3, amended. For every 8 by 8 grid and every move, between two different squares
  in range, of a pawn to the farthest rank for its colour (rank 0 for White, rank 7 for
  Black), the destination holds afterwards a piece of the pawn's colour whose type is
  the supplied promotion type, and Queen when none is supplied. In particular a white
  pawn moved from rank 1 to rank 0 with no promotion type leaves a white queen on the
  destination.
\<close>

theorem pawn_promotion:
  assumes "wf_grid g" and "in_bounds sr sc" and "in_bounds dr dc"
    and "get g sr sc = Some (color, Pawn)"
    and "dr = (if color = White then 0 else 7)"
    and "(sr, sc) \<noteq> (dr, dc)"
  shows "get (move_piece g (sr, sc) (dr, dc) promo) dr dc =
         Some (color, case promo of Some k \<Rightarrow> k | None \<Rightarrow> Queen)"
proof -
  let ?q = "Some (color, promoted color Pawn dr promo)"
  have mp: "move_piece g (sr, sc) (dr, dc) promo = set_sq (set_sq g dr dc ?q) sr sc None"
    using assms(4) by (rule move_piece_Some)
  have ne: "(dr, dc) \<noteq> (sr, sc)" using assms(6) by blast
  have "get (move_piece g (sr, sc) (dr, dc) promo) dr dc = get (set_sq g dr dc ?q) dr dc"
    unfolding mp using ne by (rule get_set_other)
  also have "\<dots> = ?q" using assms(1,3) by (rule get_set_same)
  finally have "get (move_piece g (sr, sc) (dr, dc) promo) dr dc = ?q" .
  moreover have "promoted color Pawn dr promo = (case promo of Some k \<Rightarrow> k | None \<Rightarrow> Queen)"
    using assms(5) by (cases color) (simp_all add: promoted_def)
  ultimately show ?thesis by simp
qed

theorem pawn_promotion_witness:
  "wf_grid (set_sq new_board 1 2 (Some (White, Pawn))) \<and> in_bounds 1 2 \<and> in_bounds 0 2 \<and>
   get (set_sq new_board 1 2 (Some (White, Pawn))) 1 2 = Some (White, Pawn) \<and>
   (0 :: int) = (if White = White then 0 else 7) \<and> (1 :: int, 2 :: int) \<noteq> (0, 2) \<and>
   get (move_piece (set_sq new_board 1 2 (Some (White, Pawn))) (1, 2) (0, 2) None) 0 2
     = Some (White, Queen)"
proof -
  let ?g = "set_sq new_board 1 2 (Some (White, Pawn))"
  have h1: "wf_grid ?g" using wf_new_board by (rule wf_set_sq)
  have h2: "in_bounds 1 2" "in_bounds 0 2" by (simp_all add: in_bounds_def ROWS_def COLS_def)
  have h3: "get ?g 1 2 = Some (White, Pawn)" using wf_new_board h2(1) by (rule get_set_same)
  have h4: "(0 :: int) = (if White = White then 0 else 7)" by simp
  have h5: "(1 :: int, 2 :: int) \<noteq> (0, 2)" by simp
  show ?thesis
    using h1 h2 h3 h5 pawn_promotion [OF h1 h2 h3 h4 h5, of None] by simp
qed

text \<open>
  Claim C10. For every 8 by 8 grid and every move whose source square is in range and
  occupied and whose destination is out of range, \<open>move_piece\<close> empties the source
  square and changes no other square (the write to the destination does nothing), so the
  piece is on no square afterwards and the number of pieces on the board is strictly
  smaller.
\<close>

lemma count_update_clear:
  "i < length xs \<Longrightarrow> xs ! i \<noteq> None \<Longrightarrow>
   Suc (length (filter (\<lambda>cell. cell \<noteq> None) (xs[i := None]))) = length (filter (\<lambda>cell. cell \<noteq> None) xs)"
proof (induction xs arbitrary: i)
  case Nil then show ?case by simp
next
  case (Cons x xs)
  then show ?case by (cases i) auto
qed

lemma sum_update_dec:
  "i < length xs \<Longrightarrow> Suc (f y) = f (xs ! i) \<Longrightarrow>
   Suc (sum_list (map f (xs[i := y]))) = sum_list (map f xs)"
proof (induction xs arbitrary: i)
  case Nil then show ?case by simp
next
  case (Cons x xs)
  then show ?case by (cases i) auto
qed

lemma piece_count_clear:
  assumes "wf_grid g" "in_bounds r c" "get g r c \<noteq> None"
  shows "Suc (piece_count (set_sq g r c None)) = piece_count g"
proof -
  from assms(1,2) have lt: "nat r < length g" "nat c < length (g ! nat r)"
    using wf_grid_row by blast+
  from assms(2,3) have occ: "g ! nat r ! nat c \<noteq> None" by (simp add: get_def)
  have "Suc (length (filter (\<lambda>cell. cell \<noteq> None) ((g ! nat r)[nat c := None])))
        = length (filter (\<lambda>cell. cell \<noteq> None) (g ! nat r))"
    using lt(2) occ by (rule count_update_clear)
  with lt(1) show ?thesis
    unfolding piece_count_def set_sq_def using assms(2)
    by (simp add: sum_update_dec)
qed

theorem move_out_of_range_loses_piece:
  assumes "wf_grid g" and "in_bounds sr sc" and "get g sr sc \<noteq> None"
    and "\<not> in_bounds dr dc"
  shows "get (move_piece g (sr, sc) (dr, dc) promo) sr sc = None \<and>
         (\<forall>r c. (r, c) \<noteq> (sr, sc) \<longrightarrow>
            get (move_piece g (sr, sc) (dr, dc) promo) r c = get g r c) \<and>
         piece_count (move_piece g (sr, sc) (dr, dc) promo) < piece_count g"
proof -
  from assms(3) obtain color ptype where occ: "get g sr sc = Some (color, ptype)" by auto
  have "move_piece g (sr, sc) (dr, dc) promo =
        set_sq (set_sq g dr dc (Some (color, promoted color ptype dr promo))) sr sc None"
    using occ by (rule move_piece_Some)
  also have "set_sq g dr dc (Some (color, promoted color ptype dr promo)) = g"
    using assms(4) by (simp add: set_sq_def)
  finally have mp: "move_piece g (sr, sc) (dr, dc) promo = set_sq g sr sc None" .
  have "get (set_sq g sr sc None) sr sc = None"
    using assms(1,2) by (rule get_set_same)
  moreover have "\<forall>r c. (r, c) \<noteq> (sr, sc) \<longrightarrow> get (set_sq g sr sc None) r c = get g r c"
    by (simp add: get_set_other)
  moreover have "piece_count (set_sq g sr sc None) < piece_count g"
    using piece_count_clear [OF assms(1,2,3)] by simp
  ultimately show ?thesis unfolding mp by blast
qed

theorem move_out_of_range_loses_piece_witness:
  "wf_grid new_board \<and> in_bounds 6 0 \<and> get new_board 6 0 \<noteq> None \<and> \<not> in_bounds 8 0 \<and>
   get (move_piece new_board (6, 0) (8, 0) None) 6 0 = None \<and>
   get (move_piece new_board (6, 0) (8, 0) None) 7 0 = get new_board 7 0 \<and>
   piece_count (move_piece new_board (6, 0) (8, 0) None) < piece_count new_board"
proof -
  have h: "wf_grid new_board" "in_bounds 6 0" "get new_board 6 0 \<noteq> None" "\<not> in_bounds 8 0"
    by (simp add: wf_new_board, code_simp, code_simp, code_simp)
  show ?thesis
    using h move_out_of_range_loses_piece [OF h, of None] by simp
qed

subsection \<open>The move generator returns, and what it returns\<close>

lemma ray_measure_step:
  "in_bounds nr nc \<Longrightarrow> fst d \<noteq> 0 \<or> snd d \<noteq> 0 \<Longrightarrow>
   ray_measure d (nr + fst d) (nc + snd d) < ray_measure d nr nc"
  by (auto simp: ray_measure_def in_bounds_def ROWS_def COLS_def)

lemma slide_returns:
  assumes "fst d \<noteq> 0 \<or> snd d \<noteq> 0"
  shows "\<exists>ms. slide g color src d nr nc moves = Some (moves @ ms) \<and>
              (\<forall>m\<in>set ms. dest_ok g color src m)"
proof (induction "ray_measure d nr nc" arbitrary: nr nc moves rule: less_induct)
  case less
  show ?case
  proof (cases "in_bounds nr nc")
    case False
    then show ?thesis by (subst slide.simps) simp
  next
    case inb: True
    show ?thesis
    proof (cases "get g nr nc")
      case None
      from less [OF ray_measure_step [OF inb assms]]
      obtain ms where ms: "slide g color src d (nr + fst d) (nc + snd d) (moves @ [(src, (nr, nc))])
                           = Some ((moves @ [(src, (nr, nc))]) @ ms)"
        and ok: "\<forall>m\<in>set ms. dest_ok g color src m" by blast
      have "slide g color src d nr nc moves = Some (moves @ ((src, (nr, nc)) # ms))"
        using inb None ms by (subst slide.simps) simp
      moreover have "dest_ok g color src (src, (nr, nc))"
        using inb None by (simp add: dest_ok_def)
      ultimately show ?thesis using ok by auto
    next
      case (Some target)
      show ?thesis
      proof (cases "is_enemy (Some target) color")
        case True
        have "slide g color src d nr nc moves = Some (moves @ [(src, (nr, nc))])"
          using inb Some True by (subst slide.simps) simp
        moreover have "dest_ok g color src (src, (nr, nc))"
          using inb Some True by (simp add: dest_ok_def)
        ultimately show ?thesis by auto
      next
        case False
        have "slide g color src d nr nc moves = Some (moves @ [])"
          using inb Some False by (subst slide.simps) simp
        then show ?thesis by auto
      qed
    qed
  qed
qed

lemma sliding_dirs_returns:
  assumes "\<forall>d\<in>set directions. fst d \<noteq> 0 \<or> snd d \<noteq> 0"
  shows "\<exists>ms. sliding_dirs g color r c directions moves = Some (moves @ ms) \<and>
              (\<forall>m\<in>set ms. dest_ok g color (r, c) m)"
  using assms
proof (induction directions arbitrary: moves)
  case Nil
  then show ?case by simp
next
  case (Cons d directions)
  obtain dr dc where d: "d = (dr, dc)" by (cases d)
  from Cons.prems d have nz: "fst (dr, dc) \<noteq> 0 \<or> snd (dr, dc) \<noteq> 0" by simp
  from slide_returns [OF nz, of g color "(r, c)" "r + dr" "c + dc" moves]
  obtain ms1 where s1: "slide g color (r, c) (dr, dc) (r + dr) (c + dc) moves = Some (moves @ ms1)"
    and ok1: "\<forall>m\<in>set ms1. dest_ok g color (r, c) m" by blast
  from Cons.IH [of "moves @ ms1"] Cons.prems
  obtain ms2 where s2: "sliding_dirs g color r c directions (moves @ ms1) = Some ((moves @ ms1) @ ms2)"
    and ok2: "\<forall>m\<in>set ms2. dest_ok g color (r, c) m" by auto
  have "sliding_dirs g color r c (d # directions) moves = Some (moves @ (ms1 @ ms2))"
    using d s1 s2 by simp
  with ok1 ok2 show ?case by (metis Un_iff set_append)
qed

lemma pawn_captures_ok:
  "\<exists>ms. pawn_captures g color r c dirf dcs moves = moves @ ms \<and>
        (\<forall>m\<in>set ms. dest_ok g color (r, c) m \<and> snd (snd m) \<in> (\<lambda>dc. c + dc) ` set dcs)"
proof (induction dcs arbitrary: moves)
  case Nil
  then show ?case by simp
next
  case (Cons dc dcs)
  let ?mv = "((r, c), (r + dirf, c + dc))"
  show ?case
  proof (cases "in_bounds (r + dirf) (c + dc) \<and> is_enemy (get g (r + dirf) (c + dc)) color")
    case True
    from Cons.IH [of "moves @ [?mv]"] obtain ms where
      ms: "pawn_captures g color r c dirf dcs (moves @ [?mv]) = (moves @ [?mv]) @ ms"
      and ok: "\<forall>m\<in>set ms. dest_ok g color (r, c) m \<and> snd (snd m) \<in> (\<lambda>dc. c + dc) ` set dcs" by blast
    have "pawn_captures g color r c dirf (dc # dcs) moves = moves @ (?mv # ms)"
      using True ms by simp
    moreover have "dest_ok g color (r, c) ?mv" using True by (simp add: dest_ok_def)
    ultimately show ?thesis using ok by auto
  next
    case False
    from Cons.IH [of moves] obtain ms where
      ms: "pawn_captures g color r c dirf dcs moves = moves @ ms"
      and ok: "\<forall>m\<in>set ms. dest_ok g color (r, c) m \<and> snd (snd m) \<in> (\<lambda>dc. c + dc) ` set dcs" by blast
    have "pawn_captures g color r c dirf (dc # dcs) moves = moves @ ms"
      using False ms by (auto simp: Let_def)
    then show ?thesis using ok by auto
  qed
qed

lemma step_moves_ok:
  "\<exists>ms. step_moves g color r c deltas moves = moves @ ms \<and>
        (\<forall>m\<in>set ms. dest_ok g color (r, c) m)"
proof (induction deltas arbitrary: moves)
  case Nil
  then show ?case by simp
next
  case (Cons d deltas)
  obtain dr dc where d: "d = (dr, dc)" by (cases d)
  let ?mv = "((r, c), (r + dr, c + dc))"
  show ?case
  proof (cases "in_bounds (r + dr) (c + dc) \<and>
                (get g (r + dr) (c + dc) = None \<or> is_enemy (get g (r + dr) (c + dc)) color)")
    case True
    from Cons.IH [of "moves @ [?mv]"] obtain ms where
      ms: "step_moves g color r c deltas (moves @ [?mv]) = (moves @ [?mv]) @ ms"
      and ok: "\<forall>m\<in>set ms. dest_ok g color (r, c) m" by blast
    have "step_moves g color r c (d # deltas) moves = moves @ (?mv # ms)"
      using True ms d by (auto simp: Let_def)
    moreover have "dest_ok g color (r, c) ?mv" using True by (simp add: dest_ok_def)
    ultimately show ?thesis using ok by auto
  next
    case False
    from Cons.IH [of moves] obtain ms where
      ms: "step_moves g color r c deltas moves = moves @ ms"
      and ok: "\<forall>m\<in>set ms. dest_ok g color (r, c) m" by blast
    have "step_moves g color r c (d # deltas) moves = moves @ ms"
      using False ms d by (auto simp: Let_def)
    then show ?thesis using ok by auto
  qed
qed

lemma pawn_forward_ok: "\<forall>m\<in>set (pawn_forward g color r c). dest_ok g color (r, c) m"
  by (auto simp: pawn_forward_def dest_ok_def Let_def)

lemma pawn_moves_ok: "\<forall>m\<in>set (pawn_moves g r c piece). dest_ok g (fst piece) (r, c) m"
proof -
  obtain ms where "pawn_moves g r c piece = pawn_forward g (fst piece) r c @ ms"
    and "\<forall>m\<in>set ms. dest_ok g (fst piece) (r, c) m"
    using pawn_captures_ok [of g "fst piece" r c _ "[- 1, 1]" "pawn_forward g (fst piece) r c"]
    unfolding pawn_moves_def Let_def by blast
  then show ?thesis using pawn_forward_ok [of g "fst piece" r c] by auto
qed

lemma piece_moves_returns:
  "\<exists>ms. piece_moves g r c piece = Some ms \<and> (\<forall>m\<in>set ms. dest_ok g (fst piece) (r, c) m)"
proof (cases "snd piece")
  case Pawn
  then show ?thesis using pawn_moves_ok [of g r c piece] by (simp add: piece_moves_def)
next
  case Knight
  then show ?thesis using step_moves_ok [of g "fst piece" r c knight_deltas "[]"]
    by (simp add: piece_moves_def knight_moves_def)
next
  case Bishop
  have "\<forall>d\<in>set bishop_directions. fst d \<noteq> 0 \<or> snd d \<noteq> 0" by (simp add: bishop_directions_def)
  from sliding_dirs_returns [OF this, of g "fst piece" r c "[]"] Bishop
  show ?thesis by (simp add: piece_moves_def sliding_moves_def)
next
  case Rook
  have "\<forall>d\<in>set rook_directions. fst d \<noteq> 0 \<or> snd d \<noteq> 0" by (simp add: rook_directions_def)
  from sliding_dirs_returns [OF this, of g "fst piece" r c "[]"] Rook
  show ?thesis by (simp add: piece_moves_def sliding_moves_def)
next
  case Queen
  have "\<forall>d\<in>set queen_directions. fst d \<noteq> 0 \<or> snd d \<noteq> 0" by (simp add: queen_directions_def)
  from sliding_dirs_returns [OF this, of g "fst piece" r c "[]"] Queen
  show ?thesis by (simp add: piece_moves_def sliding_moves_def)
next
  case King
  then show ?thesis using step_moves_ok [of g "fst piece" r c king_deltas "[]"]
    by (simp add: piece_moves_def king_moves_def)
qed

lemma scan_cols_eq:
  "scan_cols g turn r cs moves = Some (moves @ concat (map (square_moves g turn r) cs))"
proof (induction cs arbitrary: moves)
  case Nil
  then show ?case by simp
next
  case (Cons c cs)
  show ?case
  proof (cases "get g r c")
    case None
    then show ?thesis using Cons.IH [of moves] by (simp add: square_moves_def)
  next
    case (Some piece)
    show ?thesis
    proof (cases "fst piece = turn")
      case False
      with Some show ?thesis using Cons.IH [of moves] by (simp add: square_moves_def)
    next
      case True
      obtain ms where ms: "piece_moves g r c piece = Some ms"
        using piece_moves_returns [of g r c piece] by blast
      with Some True show ?thesis using Cons.IH [of "moves @ ms"] by (simp add: square_moves_def)
    qed
  qed
qed

lemma scan_rows_eq:
  "scan_rows g turn rs moves =
   Some (moves @ concat (map (\<lambda>r. concat (map (square_moves g turn r) [0, 1, 2, 3, 4, 5, 6, 7])) rs))"
proof (induction rs arbitrary: moves)
  case Nil
  then show ?case by simp
next
  case (Cons r rs)
  have "scan_rows g turn (r # rs) moves =
        scan_rows g turn rs (moves @ concat (map (square_moves g turn r) [0, 1, 2, 3, 4, 5, 6, 7]))"
    by (simp add: scan_cols_eq)
  then show ?case by (simp add: Cons.IH)
qed

lemma generate_legal_moves_eq: "generate_legal_moves g turn = Some (all_moves g turn)"
  unfolding generate_legal_moves_def all_moves_def by (simp only: scan_rows_eq append_Nil)

lemma square_moves_ok:
  assumes "m \<in> set (square_moves g turn r c)"
  shows "in_bounds r c \<and> (\<exists>pt. get g r c = Some (turn, pt)) \<and> dest_ok g turn (r, c) m"
proof (cases "get g r c")
  case None
  with assms show ?thesis by (simp add: square_moves_def)
next
  case (Some piece)
  have t: "fst piece = turn"
  proof (rule ccontr)
    assume "fst piece \<noteq> turn"
    with Some have "square_moves g turn r c = []" by (simp add: square_moves_def)
    with assms show False by simp
  qed
  obtain ms where ms: "piece_moves g r c piece = Some ms"
    and ok: "\<forall>m\<in>set ms. dest_ok g (fst piece) (r, c) m"
    using piece_moves_returns [of g r c piece] by blast
  from assms Some t ms have "m \<in> set ms" by (simp add: square_moves_def)
  with ok t have "dest_ok g turn (r, c) m" by blast
  moreover have "in_bounds r c" using Some by (auto simp: get_def split: if_splits)
  moreover have "get g r c = Some (turn, snd piece)" using Some t by (cases piece) simp
  ultimately show ?thesis by blast
qed

lemma all_moves_square:
  assumes "m \<in> set (all_moves g turn)"
  shows "\<exists>r c. m \<in> set (square_moves g turn r c)"
  using assms unfolding all_moves_def by auto

lemma filter_concat_unique:
  "distinct xs \<Longrightarrow> x \<in> set xs \<Longrightarrow> (\<forall>y\<in>set xs. \<forall>m\<in>set (f y). k m = y) \<Longrightarrow>
   filter (\<lambda>m. k m = x) (concat (map f xs)) = f x"
proof (induction xs)
  case Nil
  then show ?case by simp
next
  case (Cons a xs)
  show ?case
  proof (cases "a = x")
    case True
    with Cons.prems have "x \<notin> set xs" by simp
    with Cons.prems have "filter (\<lambda>m. k m = x) (concat (map f xs)) = []"
      by (auto simp: filter_empty_conv)
    moreover have "filter (\<lambda>m. k m = x) (f a) = f x"
      using True Cons.prems by (simp add: filter_id_conv)
    ultimately show ?thesis by simp
  next
    case False
    with Cons.prems have "filter (\<lambda>m. k m = x) (f a) = []"
      by (auto simp: filter_empty_conv)
    moreover have "filter (\<lambda>m. k m = x) (concat (map f xs)) = f x"
      using Cons.IH Cons.prems False by auto
    ultimately show ?thesis by simp
  qed
qed

lemma in_bounds_mem:
  "in_bounds r c \<Longrightarrow> r \<in> set [0, 1, 2, 3, 4, 5, 6, 7] \<and> c \<in> set [0, 1, 2, 3, 4, 5, 6, 7]"
  by (auto simp: in_bounds_def ROWS_def COLS_def)

lemma moves_from_square:
  assumes "in_bounds r c"
  shows "filter (\<lambda>m. fst m = (r, c)) (all_moves g turn) = square_moves g turn r c"
proof -
  let ?cols = "[0, 1, 2, 3, 4, 5, 6, 7] :: int list"
  let ?row = "\<lambda>r. concat (map (square_moves g turn r) ?cols)"
  have src: "fst m = (r', c')" if "m \<in> set (square_moves g turn r' c')" for m r' c'
    using square_moves_ok [OF that] by (simp add: dest_ok_def)
  have d: "distinct ?cols" by simp
  have rowk: "\<forall>y\<in>set ?cols. \<forall>m\<in>set (?row y). fst (fst m) = y"
    using src by fastforce
  have colk: "\<forall>y\<in>set ?cols. \<forall>m\<in>set (square_moves g turn r y). snd (fst m) = y"
    using src by fastforce
  have "filter (\<lambda>m. fst m = (r, c)) (all_moves g turn)
        = filter (\<lambda>m. snd (fst m) = c) (filter (\<lambda>m. fst (fst m) = r) (all_moves g turn))"
    by (auto simp: prod_eq_iff intro: filter_cong)
  also have "filter (\<lambda>m. fst (fst m) = r) (all_moves g turn) = ?row r"
    unfolding all_moves_def using in_bounds_mem [OF assms] rowk
    by (intro filter_concat_unique [OF d]) blast+
  also have "filter (\<lambda>m. snd (fst m) = c) (?row r) = square_moves g turn r c"
    using in_bounds_mem [OF assms] colk
    by (intro filter_concat_unique [OF d]) blast+
  finally show ?thesis .
qed

text \<open>
  Claim C9. For every grid and colour the generator returns, and every move it returns
  is well formed: the source square is in range and holds a piece of the given colour,
  the destination square is in range, and the destination is empty or holds a piece of
  the other colour.
\<close>

theorem generated_moves_well_formed:
  "\<exists>ms. generate_legal_moves g color = Some ms \<and>
     (\<forall>m\<in>set ms. case m of ((sr, sc), (dr, dc)) \<Rightarrow>
        in_bounds sr sc \<and> (\<exists>ptype. get g sr sc = Some (color, ptype)) \<and>
        in_bounds dr dc \<and>
        (get g dr dc = None \<or> (\<exists>p. get g dr dc = Some p \<and> fst p \<noteq> color)))"
proof -
  have "case m of ((sr, sc), (dr, dc)) \<Rightarrow>
        in_bounds sr sc \<and> (\<exists>ptype. get g sr sc = Some (color, ptype)) \<and>
        in_bounds dr dc \<and>
        (get g dr dc = None \<or> (\<exists>p. get g dr dc = Some p \<and> fst p \<noteq> color))"
    if "m \<in> set (all_moves g color)" for m
  proof -
    from all_moves_square [OF that] obtain r c where "m \<in> set (square_moves g color r c)"
      by blast
    from square_moves_ok [OF this]
    have a: "in_bounds r c" "\<exists>pt. get g r c = Some (color, pt)" "dest_ok g color (r, c) m"
      by blast+
    obtain dr dc where m: "m = ((r, c), (dr, dc))"
      using a(3) by (cases m) (auto simp: dest_ok_def)
    from a(3) m have "in_bounds dr dc"
      "get g dr dc = None \<or> (\<exists>p. get g dr dc = Some p \<and> fst p \<noteq> color)"
      by (auto simp: dest_ok_def is_enemy_def split: option.splits)
    with a m show ?thesis by simp
  qed
  note key = this
  show ?thesis
  proof (intro exI conjI ballI)
    show "generate_legal_moves g color = Some (all_moves g color)"
      by (rule generate_legal_moves_eq)
  next
    fix m
    assume "m \<in> set (all_moves g color)"
    then show "case m of ((sr, sc), (dr, dc)) \<Rightarrow>
        in_bounds sr sc \<and> (\<exists>ptype. get g sr sc = Some (color, ptype)) \<and>
        in_bounds dr dc \<and>
        (get g dr dc = None \<or> (\<exists>p. get g dr dc = Some p \<and> fst p \<noteq> color))"
      by (rule key)
  qed
qed

theorem generated_moves_well_formed_witness:
  "\<exists>ms. generate_legal_moves new_board White = Some ms \<and> ((6, 0), (5, 0)) \<in> set ms \<and>
        in_bounds 6 0 \<and> get new_board 6 0 = Some (White, Pawn) \<and>
        in_bounds 5 0 \<and> get new_board 5 0 = None"
proof -
  from generated_moves_well_formed [of new_board White] obtain ms where
    gen: "generate_legal_moves new_board White = Some ms" and
    ok: "\<forall>m\<in>set ms. case m of ((sr, sc), (dr, dc)) \<Rightarrow>
        in_bounds sr sc \<and> (\<exists>ptype. get new_board sr sc = Some (White, ptype)) \<and>
        in_bounds dr dc \<and>
        (get new_board dr dc = None \<or> (\<exists>p. get new_board dr dc = Some p \<and> fst p \<noteq> White))"
    by blast
  have "generate_legal_moves new_board White =
        Some (((6, 0), (5, 0)) # tl (case generate_legal_moves new_board White of Some xs \<Rightarrow> xs))"
    by code_simp
  with gen have mem: "((6, 0), (5, 0)) \<in> set ms" by (metis list.set_intros(1) option.inject)
  from ok mem have "in_bounds 6 0 \<and> in_bounds 5 0" by fastforce
  moreover have "get new_board 6 0 = Some (White, Pawn)" "get new_board 5 0 = None" by code_simp+
  ultimately show ?thesis using gen mem by (intro exI [of _ ms]) simp
qed

subsection \<open>A lone rook\<close>

lemma get_lone_rook:
  "get (lone_rook color) r c = (if (r, c) = (3, 3) then Some (color, Rook) else None)"
proof -
  have wf: "wf_grid (replicate 8 (replicate 8 None))" by (simp add: wf_grid_def list_all_length)
  have e: "get (replicate 8 (replicate 8 None)) r c = None"
    by (auto simp: get_def in_bounds_def ROWS_def COLS_def)
  show ?thesis
  proof (cases "(r, c) = (3, 3)")
    case True
    then have "get (lone_rook color) r c = Some (color, Rook)"
      unfolding lone_rook_def using get_set_same [OF wf, of 3 3]
      by (simp add: in_bounds_def ROWS_def COLS_def)
    with True show ?thesis by simp
  next
    case False
    then show ?thesis unfolding lone_rook_def by (simp add: get_set_other e)
  qed
qed

lemma rank_file_squares:
  "{(r, c). in_bounds r c \<and> (r = 3 \<or> c = 3) \<and> (r, c) \<noteq> (3, 3)} =
   set [(2, 3), (1, 3), (0, 3), (4, 3), (5, 3), (6, 3), (7, 3),
        (3, 2), (3, 1), (3, 0), (3, 4), (3, 5), (3, 6), (3, 7)]"
  (is "?L = set ?ds")
proof (rule set_eqI)
  fix sq :: square
  obtain r c where sq: "sq = (r, c)" by (cases sq)
  have r8: "0 \<le> x \<Longrightarrow> x < 8 \<Longrightarrow> x \<in> {0, 1, 2, 3, 4, 5, 6, 7}" for x :: int by auto
  show "sq \<in> ?L \<longleftrightarrow> sq \<in> set ?ds"
  proof
    assume "sq \<in> ?L"
    with sq have b: "0 \<le> r" "r < 8" "0 \<le> c" "c < 8" and rf: "r = 3 \<or> c = 3"
      and ne: "r \<noteq> 3 \<or> c \<noteq> 3"
      by (auto simp: in_bounds_def ROWS_def COLS_def)
    from rf show "sq \<in> set ?ds"
    proof
      assume r: "r = 3"
      with ne have "c \<noteq> 3" by simp
      with r8 [OF b(3,4)] r sq show ?thesis by auto
    next
      assume c: "c = 3"
      with ne have "r \<noteq> 3" by simp
      with r8 [OF b(1,2)] c sq show ?thesis by auto
    qed
  next
    assume "sq \<in> set ?ds"
    then show "sq \<in> ?L" by (auto simp: in_bounds_def ROWS_def COLS_def)
  qed
qed

text \<open>
  Claim C5. On the board that is empty except for one rook on \<open>(3, 3)\<close>, the generator
  returns for the rook's colour exactly 14 moves, all from \<open>(3, 3)\<close>, with 14 different
  destinations: the squares of the board that share the rook's rank or file.
\<close>

theorem lone_rook_moves:
  "(\<forall>r c. get (lone_rook color) r c = (if (r, c) = (3, 3) then Some (color, Rook) else None)) \<and>
   (\<exists>ds. generate_legal_moves (lone_rook color) color = Some (map (Pair (3, 3)) ds) \<and>
         length ds = 14 \<and> distinct ds \<and>
         set ds = {(r, c). in_bounds r c \<and> (r = 3 \<or> c = 3) \<and> (r, c) \<noteq> (3, 3)})"
proof -
  let ?ds = "[(2, 3), (1, 3), (0, 3), (4, 3), (5, 3), (6, 3), (7, 3),
              (3, 2), (3, 1), (3, 0), (3, 4), (3, 5), (3, 6), (3, 7)] :: square list"
  have gen: "generate_legal_moves (lone_rook color) color = Some (map (Pair (3, 3)) ?ds)"
    by (cases color; code_simp)
  have "length ?ds = 14" "distinct ?ds" by simp_all
  with gen rank_file_squares show ?thesis
    using get_lone_rook by (intro conjI allI exI [of _ ?ds]) simp_all
qed

subsection \<open>Pawns on their starting rank\<close>

lemma pawn_forward_start:
  assumes "in_bounds r c" and "r = (if color = White then 6 else 1)"
    and "d = (if color = White then - 1 else 1)"
  shows "pawn_forward g color r c =
         (if get g (r + d) c = None then
            (if get g (r + d + d) c = None
             then [((r, c), (r + d, c)), ((r, c), (r + d + d, c))]
             else [((r, c), (r + d, c))])
          else [])"
  using assms
  by (cases color) (auto simp: pawn_forward_def Let_def in_bounds_def ROWS_def COLS_def)

lemma pawn_moves_forward_filter:
  "filter (\<lambda>m. snd (snd m) = c) (pawn_moves g r c piece) = pawn_forward g (fst piece) r c"
proof -
  obtain ms where ms: "pawn_moves g r c piece = pawn_forward g (fst piece) r c @ ms"
    and cap: "\<forall>m\<in>set ms. dest_ok g (fst piece) (r, c) m \<and> snd (snd m) \<in> (\<lambda>dc. c + dc) ` set [- 1, 1]"
    using pawn_captures_ok [of g "fst piece" r c _ "[- 1, 1]" "pawn_forward g (fst piece) r c"]
    unfolding pawn_moves_def Let_def by blast
  from cap have "filter (\<lambda>m. snd (snd m) = c) ms = []"
    by (auto simp: filter_empty_conv)
  moreover have "filter (\<lambda>m. snd (snd m) = c) (pawn_forward g (fst piece) r c)
                 = pawn_forward g (fst piece) r c"
    by (auto simp: filter_id_conv pawn_forward_def Let_def)
  ultimately show ?thesis using ms by simp
qed

text \<open>
  Claim C6. For every grid and every pawn on the starting rank of its colour (rank 6
  for White, rank 1 for Black), among the moves the generator returns for that colour,
  those of this pawn that stay on its file (the forward moves; captures change file)
  are exactly the one-step and the two-step move when both squares ahead are empty, and
  there is none when the square immediately ahead is occupied, whatever the two-step
  square holds.
\<close>

theorem pawn_forward_moves_on_start_rank:
  assumes "get g r c = Some (color, Pawn)"
    and "r = (if color = White then 6 else 1)"
    and "d = (if color = White then - 1 else 1)"
  shows "\<exists>ms. generate_legal_moves g color = Some ms \<and>
           (get g (r + d) c = None \<and> get g (r + 2 * d) c = None \<longrightarrow>
              filter (\<lambda>m. fst m = (r, c) \<and> snd (snd m) = c) ms
              = [((r, c), (r + d, c)), ((r, c), (r + 2 * d, c))]) \<and>
           (get g (r + d) c \<noteq> None \<longrightarrow>
              filter (\<lambda>m. fst m = (r, c) \<and> snd (snd m) = c) ms = [])"
proof -
  have inb: "in_bounds r c" using assms(1) by (auto simp: get_def split: if_splits)
  have sq: "square_moves g color r c = pawn_moves g r c (color, Pawn)"
    using assms(1) by (simp add: square_moves_def piece_moves_def)
  have "filter (\<lambda>m. fst m = (r, c) \<and> snd (snd m) = c) (all_moves g color)
        = filter (\<lambda>m. snd (snd m) = c) (filter (\<lambda>m. fst m = (r, c)) (all_moves g color))"
    by (simp add: conj_commute)
  also have "\<dots> = filter (\<lambda>m. snd (snd m) = c) (pawn_moves g r c (color, Pawn))"
    by (simp only: moves_from_square [OF inb] sq)
  also have "\<dots> = pawn_forward g color r c"
    using pawn_moves_forward_filter [of c g r "(color, Pawn)"] by simp
  finally have fw: "filter (\<lambda>m. fst m = (r, c) \<and> snd (snd m) = c) (all_moves g color)
                    = pawn_forward g color r c" .
  have two: "r + 2 * d = r + d + d" by simp
  show ?thesis
    by (rule exI [of _ "all_moves g color"])
       (simp add: generate_legal_moves_eq fw pawn_forward_start [OF inb assms(2,3)] two)
qed

theorem pawn_forward_moves_on_start_rank_witness:
  "get new_board 6 4 = Some (White, Pawn) \<and> (6 :: int) = (if White = White then 6 else 1) \<and>
   get new_board 5 4 = None \<and> get new_board 4 4 = None \<and>
   (\<exists>ms. generate_legal_moves new_board White = Some ms \<and>
      filter (\<lambda>m. fst m = (6, 4) \<and> snd (snd m) = 4) ms = [((6, 4), (5, 4)), ((6, 4), (4, 4))]) \<and>
   get (set_sq new_board 2 4 (Some (White, Knight))) 1 4 = Some (Black, Pawn) \<and>
   get (set_sq new_board 2 4 (Some (White, Knight))) 2 4 \<noteq> None \<and>
   get (set_sq new_board 2 4 (Some (White, Knight))) 3 4 = None \<and>
   (\<exists>ms. generate_legal_moves (set_sq new_board 2 4 (Some (White, Knight))) Black = Some ms \<and>
      filter (\<lambda>m. fst m = (1, 4) \<and> snd (snd m) = 4) ms = [])"
proof -
  let ?g = "set_sq new_board 2 4 (Some (White, Knight))"
  have h: "get new_board 6 4 = Some (White, Pawn)" "(6 :: int) = (if White = White then 6 else 1)"
    "(- 1 :: int) = (if White = White then - 1 else 1)"
    by (code_simp, simp, simp)
  have e: "get new_board 5 4 = None" "get new_board 4 4 = None" by code_simp+
  from pawn_forward_moves_on_start_rank [OF h] e obtain ms where
    a: "generate_legal_moves new_board White = Some ms"
    "filter (\<lambda>m. fst m = (6, 4) \<and> snd (snd m) = 4) ms = [((6, 4), (5, 4)), ((6, 4), (4, 4))]"
    by auto
  have k: "get ?g 1 4 = Some (Black, Pawn)" "(1 :: int) = (if Black = White then 6 else 1)"
    "(1 :: int) = (if Black = White then - 1 else 1)"
    by (code_simp, simp, simp)
  have o: "get ?g 2 4 \<noteq> None" "get ?g 3 4 = None" by code_simp+
  from pawn_forward_moves_on_start_rank [OF k] o obtain ms' where
    b: "generate_legal_moves ?g Black = Some ms'"
    "filter (\<lambda>m. fst m = (1, 4) \<and> snd (snd m) = 4) ms' = []"
    by auto
  have A: "\<exists>ms. generate_legal_moves new_board White = Some ms \<and>
      filter (\<lambda>m. fst m = (6, 4) \<and> snd (snd m) = 4) ms = [((6, 4), (5, 4)), ((6, 4), (4, 4))]"
    using a by (intro exI [of _ ms]) simp
  have B: "\<exists>ms. generate_legal_moves ?g Black = Some ms \<and>
      filter (\<lambda>m. fst m = (1, 4) \<and> snd (snd m) = 4) ms = []"
    using b by (intro exI [of _ ms']) simp
  from h(1,2) e A k(1) o B show ?thesis by (intro conjI)
qed

subsection \<open>The move chosen by \<open>SimpleAI\<close>\<close>

lemma best_loop_subset:
  "set (snd (best_loop g color mvs st)) \<subseteq> set (snd st) \<union> set mvs"
proof (induction mvs arbitrary: st)
  case Nil
  then show ?case by simp
next
  case (Cons mv mvs)
  obtain bs bm where st: "st = (bs, bm)" by (cases st)
  let ?e = "eval_score g color mv"
  let ?st' = "(if (case bs of None \<Rightarrow> True | Some b \<Rightarrow> ?e > b) then (Some ?e, [mv])
               else if bs = Some ?e then (bs, bm @ [mv]) else (bs, bm))"
  have "best_loop g color (mv # mvs) st = best_loop g color mvs ?st'"
    by (simp add: st Let_def)
  moreover have "set (snd ?st') \<subseteq> set bm \<union> {mv}" by auto
  ultimately show ?case using Cons.IH [of ?st'] st by auto
qed

lemma best_loop_keeps:
  "fst st \<noteq> None \<Longrightarrow> snd st \<noteq> [] \<Longrightarrow>
   fst (best_loop g color mvs st) \<noteq> None \<and> snd (best_loop g color mvs st) \<noteq> []"
proof (induction mvs arbitrary: st)
  case Nil
  then show ?case by simp
next
  case (Cons mv mvs)
  obtain bs bm where st: "st = (bs, bm)" by (cases st)
  let ?e = "eval_score g color mv"
  let ?st' = "(if (case bs of None \<Rightarrow> True | Some b \<Rightarrow> ?e > b) then (Some ?e, [mv])
               else if bs = Some ?e then (bs, bm @ [mv]) else (bs, bm))"
  have eq: "best_loop g color (mv # mvs) st = best_loop g color mvs ?st'"
    by (simp add: st Let_def)
  have "fst ?st' \<noteq> None" "snd ?st' \<noteq> []" using Cons.prems st by auto
  from Cons.IH [OF this] show ?case unfolding eq .
qed

lemma best_loop_nonempty:
  assumes "mvs \<noteq> []"
  shows "snd (best_loop g color mvs (None, [])) \<noteq> []"
proof -
  obtain mv rest where mvs: "mvs = mv # rest" using assms by (cases mvs) auto
  have "best_loop g color mvs (None, []) = best_loop g color rest (Some (eval_score g color mv), [mv])"
    by (simp add: mvs Let_def)
  then show ?thesis
    using best_loop_keeps [of "(Some (eval_score g color mv), [mv])" g color rest] by simp
qed

lemma capture_loop_subset:
  "set (fst (capture_loop g mvs st)) \<subseteq> set (fst st) \<union> set mvs"
proof (induction mvs arbitrary: st)
  case Nil
  then show ?case by simp
next
  case (Cons mv mvs)
  obtain cb cv where st: "st = (cb, cv)" by (cases st)
  obtain dr dc where d: "snd mv = (dr, dc)" by (cases "snd mv")
  let ?st' = "(case get g dr dc of
           None \<Rightarrow> (cb, cv)
         | Some cp \<Rightarrow>
             (let val = MATERIAL_VALUES (snd cp) in
              if val > cv then ([mv], val)
              else if val = cv then (cb @ [mv], cv)
              else (cb, cv)))"
  have "capture_loop g (mv # mvs) st = capture_loop g mvs ?st'"
    by (simp add: st d)
  moreover have "set (fst ?st') \<subseteq> set cb \<union> {mv}"
    by (auto simp: Let_def split: option.splits)
  ultimately show ?case using Cons.IH [of ?st'] st by auto
qed

lemma random_choice_mem:
  "xs \<noteq> [] \<Longrightarrow> \<exists>x\<in>set xs. random_choice draw xs = Inr x"
  by (simp add: random_choice_def)

text \<open>
  Claim C2. For every grid, colour and outcome \<open>draw\<close> of the random draw, the generator
  returns some list \<open>ms\<close> and \<open>choose_move\<close> returns without an exception; its result is
  \<^verbatim>\<open>None\<close> exactly when \<open>ms\<close> is empty, and when it is a move, the move is an element
  of \<open>ms\<close>. The proof uses nothing about the values of the scores: the first move always
  beats the initial \<^verbatim>\<open>-math.inf\<close>, and the two selection loops only keep moves they
  are given.
\<close>

theorem choose_move_from_generated:
  "\<exists>ms res. generate_legal_moves g color = Some ms \<and>
            choose_move g color draw = Some (Inr res) \<and>
            (res = None \<longleftrightarrow> ms = []) \<and>
            (\<forall>mv. res = Some mv \<longrightarrow> mv \<in> set ms)"
proof -
  let ?ms = "all_moves g color"
  have gen: "generate_legal_moves g color = Some ?ms" by (rule generate_legal_moves_eq)
  show ?thesis
  proof (cases "?ms = []")
    case True
    then have "choose_move g color draw = Some (Inr None)"
      by (simp add: choose_move_def gen)
    with gen True show ?thesis by simp
  next
    case False
    let ?bm = "snd (best_loop g color ?ms (None, []))"
    let ?cb = "fst (capture_loop g ?bm ([], 0))"
    let ?pick = "if ?cb \<noteq> [] then ?cb else ?bm"
    have bm: "?bm \<noteq> []" "set ?bm \<subseteq> set ?ms"
      using best_loop_nonempty [OF False] best_loop_subset [of g color ?ms "(None, [])"] by auto
    have cb: "set ?cb \<subseteq> set ?bm" using capture_loop_subset [of g ?bm "([], 0)"] by simp
    have pick: "?pick \<noteq> []" "set ?pick \<subseteq> set ?ms" using bm cb by auto
    from random_choice_mem [OF pick(1), of draw] obtain mv where
      mv: "mv \<in> set ?pick" "random_choice draw ?pick = Inr mv" by blast
    have "choose_move g color draw = Some (map_sum id Some (random_choice draw ?pick))"
      using False by (simp add: choose_move_def gen split_beta)
    with mv have "choose_move g color draw = Some (Inr (Some mv))" by simp
    moreover have "mv \<in> set ?ms" using mv(1) pick(2) by blast
    ultimately show ?thesis using gen False
      by (intro exI [of _ ?ms] exI [of _ "Some mv"]) simp
  qed
qed

theorem choose_move_from_generated_witness:
  "(\<exists>ms. generate_legal_moves new_board Black = Some ms \<and>
         choose_move new_board Black 5 = Some (Inr (Some ((1, 0), (3, 0)))) \<and>
         ((1, 0), (3, 0)) \<in> set ms \<and> ms \<noteq> []) \<and>
   (generate_legal_moves (replicate 8 (replicate 8 None)) Black = Some [] \<and>
    choose_move (replicate 8 (replicate 8 None)) Black 5 = Some (Inr None))"
proof -
  from choose_move_from_generated [of new_board Black 5] obtain ms res where
    a: "generate_legal_moves new_board Black = Some ms"
       "choose_move new_board Black 5 = Some (Inr res)"
       "res = None \<longleftrightarrow> ms = []" "\<forall>mv. res = Some mv \<longrightarrow> mv \<in> set ms"
    by blast
  have c: "choose_move new_board Black 5 = Some (Inr (Some ((1, 0), (3, 0))))" by code_simp
  with a(2) have res: "res = Some ((1, 0), (3, 0))" by simp
  with a(3,4) have "((1, 0), (3, 0)) \<in> set ms" "ms \<noteq> []" by auto
  with a(1) c have A: "\<exists>ms. generate_legal_moves new_board Black = Some ms \<and>
         choose_move new_board Black 5 = Some (Inr (Some ((1, 0), (3, 0)))) \<and>
         ((1, 0), (3, 0)) \<in> set ms \<and> ms \<noteq> []"
    by (intro exI [of _ ms]) simp
  from choose_move_from_generated [of "replicate 8 (replicate 8 None)" Black 5]
  obtain ms' res' where
    b: "generate_legal_moves (replicate 8 (replicate 8 None)) Black = Some ms'"
       "choose_move (replicate 8 (replicate 8 None)) Black 5 = Some (Inr res')"
       "res' = None \<longleftrightarrow> ms' = []"
    by blast
  have "generate_legal_moves (replicate 8 (replicate 8 None)) Black = Some []" by code_simp
  with b have B: "generate_legal_moves (replicate 8 (replicate 8 None)) Black = Some [] \<and>
    choose_move (replicate 8 (replicate 8 None)) Black 5 = Some (Inr None)" by simp
  from A B show ?thesis by (rule conjI)
qed

subsection \<open>Boards in the store: a clone shares nothing with its original\<close>

lemma separate_sym: "separate h b b' \<Longrightarrow> separate h b' b"
  by (auto simp: separate_def)

lemma wf_boardD:
  assumes "wf_board h b"
  shows "b < length (boards h)" "boards h ! b < length (grids h)" "length (rows_of h b) = 8"
    "\<And>ra. ra \<in> set (rows_of h b) \<Longrightarrow> ra < length (rows h) \<and> length (rows h ! ra) = 8"
  using assms by (auto simp: wf_board_def rows_of_def list_all_iff)

lemma wf_boardI:
  assumes "b < length (boards h)" "boards h ! b < length (grids h)" "length (rows_of h b) = 8"
    "\<And>ra. ra \<in> set (rows_of h b) \<Longrightarrow> ra < length (rows h) \<and> length (rows h ! ra) = 8"
  shows "wf_board h b"
  using assms by (auto simp: wf_board_def rows_of_def list_all_iff)

lemma grid_of_eqI:
  assumes "rows_of h' b = rows_of h b"
    and "\<And>ra. ra \<in> set (rows_of h b) \<Longrightarrow> rows h' ! ra = rows h ! ra"
  shows "grid_of h' b = grid_of h b"
  using assms by (simp add: grid_of_def rows_of_def cong: map_cong)

lemma Board_set_frame:
  assumes wb: "wf_board h b" and wb': "wf_board h b'" and sep: "separate h b b'"
  shows "wf_board (Board_set h b' r c p) b \<and> wf_board (Board_set h b' r c p) b' \<and>
         separate (Board_set h b' r c p) b b' \<and>
         grid_of (Board_set h b' r c p) b = grid_of h b"
proof (cases "in_bounds r c")
  case False
  then show ?thesis using assms by (simp add: Board_set_def)
next
  case True
  let ?ra = "rows_of h b' ! nat r"
  let ?h = "h\<lparr>rows := (rows h)[?ra := (rows h ! ?ra)[nat c := p]]\<rparr>"
  have eq: "Board_set h b' r c p = ?h" using True by (simp add: Board_set_def rows_of_def Let_def)
  from True have "nat r < 8" by (auto simp: in_bounds_def ROWS_def)
  then have mem: "?ra \<in> set (rows_of h b')" using wf_boardD(3) [OF wb'] by simp
  with sep have nmem: "?ra \<notin> set (rows_of h b)" by (auto simp: separate_def)
  have ro: "rows_of ?h x = rows_of h x" for x by (simp add: rows_of_def)
  have len: "length (rows ?h) = length (rows h)" by simp
  have leni: "length (rows ?h ! ra) = length (rows h ! ra)" if "ra < length (rows h)" for ra
    using that by (cases "ra = ?ra") (simp_all add: nth_list_update)
  have w: "wf_board ?h x" if wx: "wf_board h x" for x
  proof (intro wf_boardI)
    show "x < length (boards ?h)" using wf_boardD(1) [OF wx] by simp
    show "boards ?h ! x < length (grids ?h)" using wf_boardD(2) [OF wx] by simp
    show "length (rows_of ?h x) = 8" using wf_boardD(3) [OF wx] by (simp only: ro)
  next
    fix ra assume "ra \<in> set (rows_of ?h x)"
    then have "ra \<in> set (rows_of h x)" by (simp only: ro)
    from wf_boardD(4) [OF wx this] have "ra < length (rows h)" "length (rows h ! ra) = 8"
      by simp_all
    then show "ra < length (rows ?h) \<and> length (rows ?h ! ra) = 8"
      using leni [of ra] len by simp
  qed
  have w1: "wf_board ?h b" using wb by (rule w)
  have w2: "wf_board ?h b'" using wb' by (rule w)
  have s: "separate ?h b b'" using sep by (simp add: separate_def ro)
  have g: "grid_of ?h b = grid_of h b"
  proof (rule grid_of_eqI)
    show "rows_of ?h b = rows_of h b" by (rule ro)
  next
    fix ra assume "ra \<in> set (rows_of h b)"
    with nmem have "ra \<noteq> ?ra" by blast
    then show "rows ?h ! ra = rows h ! ra" by simp
  qed
  from w1 w2 s g show ?thesis unfolding eq by blast
qed

lemma Board_move_piece_frame:
  assumes wb: "wf_board h b" and wb': "wf_board h b'" and sep: "separate h b b'"
  shows "wf_board (Board_move_piece h b' src dst promo) b \<and>
         wf_board (Board_move_piece h b' src dst promo) b' \<and>
         separate (Board_move_piece h b' src dst promo) b b' \<and>
         grid_of (Board_move_piece h b' src dst promo) b = grid_of h b"
proof -
  obtain sr sc dr dc where sd: "src = (sr, sc)" "dst = (dr, dc)" by (cases src, cases dst)
  show ?thesis
  proof (cases "Board_get h b' sr sc")
    case None
    then show ?thesis using assms sd by (simp add: Board_move_piece_def)
  next
    case (Some p)
    obtain color ptype where p: "p = (color, ptype)" by (cases p)
    let ?q = "Some (color, promoted color ptype dr promo)"
    let ?h1 = "Board_set h b' dr dc ?q"
    have eq: "Board_move_piece h b' src dst promo = Board_set ?h1 b' sr sc None"
      using Some p sd by (auto simp: Board_move_piece_def promoted_def)
    from Board_set_frame [OF assms, of dr dc ?q]
    have 1: "wf_board ?h1 b" "wf_board ?h1 b'" "separate ?h1 b b'" "grid_of ?h1 b = grid_of h b"
      by blast+
    from Board_set_frame [OF 1(1,2,3), of sr sc None] 1(4)
    show ?thesis unfolding eq by simp
  qed
qed

lemma assign_row_frame:
  assumes wb: "wf_board h b" and wb': "wf_board h b'" and sep: "separate h b b'"
    and r: "r < 8" and cells: "length cells = 8"
  shows "wf_board (assign_row h b' r cells) b \<and> wf_board (assign_row h b' r cells) b' \<and>
         separate (assign_row h b' r cells) b b' \<and>
         grid_of (assign_row h b' r cells) b = grid_of h b"
proof -
  let ?ga = "boards h ! b'"
  let ?n = "length (rows h)"
  let ?h = "h\<lparr>grids := (grids h)[?ga := (grids h ! ?ga)[r := ?n]], rows := rows h @ [cells]\<rparr>"
  have eq: "assign_row h b' r cells = ?h" by (simp add: assign_row_def Let_def)
  from sep have ne: "boards h ! b \<noteq> ?ga" by (simp add: separate_def)
  have rb: "rows_of ?h b = rows_of h b" using ne by (simp add: rows_of_def)
  have rb': "rows_of ?h b' = (rows_of h b')[r := ?n]"
    using wf_boardD(2) [OF wb'] by (simp add: rows_of_def)
  have old: "rows ?h ! ra = rows h ! ra" if "ra < ?n" for ra
    using that by (simp add: nth_append)
  have new: "rows ?h ! ?n = cells" by simp
  have w1: "wf_board ?h b"
  proof (intro wf_boardI)
    show "b < length (boards ?h)" using wf_boardD(1) [OF wb] by simp
    show "boards ?h ! b < length (grids ?h)" using wf_boardD(2) [OF wb] by simp
    show "length (rows_of ?h b) = 8" using wf_boardD(3) [OF wb] by (simp add: rb)
  next
    fix ra assume "ra \<in> set (rows_of ?h b)"
    then have "ra \<in> set (rows_of h b)" by (simp add: rb)
    from wf_boardD(4) [OF wb this] show "ra < length (rows ?h) \<and> length (rows ?h ! ra) = 8"
      by (simp add: nth_append)
  qed
  have w2: "wf_board ?h b'"
  proof (intro wf_boardI)
    show "b' < length (boards ?h)" using wf_boardD(1) [OF wb'] by simp
    show "boards ?h ! b' < length (grids ?h)" using wf_boardD(2) [OF wb'] by simp
    show "length (rows_of ?h b') = 8" using wf_boardD(3) [OF wb'] by (simp add: rb')
  next
    fix ra assume "ra \<in> set (rows_of ?h b')"
    then have "ra = ?n \<or> ra \<in> set (rows_of h b')"
      unfolding rb' using set_update_subset_insert [of "rows_of h b'" r ?n] by auto
    then show "ra < length (rows ?h) \<and> length (rows ?h ! ra) = 8"
    proof
      assume "ra = ?n"
      then show ?thesis using cells by simp
    next
      assume "ra \<in> set (rows_of h b')"
      from wf_boardD(4) [OF wb' this] show ?thesis by (simp add: nth_append)
    qed
  qed
  have s: "separate ?h b b'"
  proof -
    have "?n \<notin> set (rows_of h b)" using wf_boardD(4) [OF wb, of ?n] by auto
    moreover have "set (rows_of ?h b') \<subseteq> insert ?n (set (rows_of h b'))"
      unfolding rb' by (rule set_update_subset_insert)
    ultimately show ?thesis using sep ne unfolding separate_def rb by auto
  qed
  have g: "grid_of ?h b = grid_of h b"
    using wf_boardD(4) [OF wb] by (intro grid_of_eqI rb) (simp add: nth_append)
  from w1 w2 s g show ?thesis unfolding eq by blast
qed

lemma isolated_sym: "isolated h b b' \<Longrightarrow> isolated h b' b"
  by (simp add: isolated_def separate_sym)

lemma assign_row_isolated:
  assumes "isolated h b b'" "r < 8" "length cells = 8"
  shows "isolated (assign_row h b' r cells) b b' \<and>
         grid_of (assign_row h b' r cells) b = grid_of h b"
  using assign_row_frame [of h b b' r cells] assms by (simp add: isolated_def)

lemma Board_reset_isolated:
  assumes "isolated h b b'"
  shows "isolated (Board_reset h b') b b' \<and> grid_of (Board_reset h b') b = grid_of h b"
proof -
  have br: "length (back_rank col) = 8" for col by (simp add: back_rank_def)
  let ?h0 = "assign_row h b' 0 (back_rank Black)"
  let ?h1 = "assign_row ?h0 b' 1 (replicate 8 (Some (Black, Pawn)))"
  let ?h2 = "assign_row ?h1 b' 2 (replicate 8 None)"
  let ?h3 = "assign_row ?h2 b' 3 (replicate 8 None)"
  let ?h4 = "assign_row ?h3 b' 4 (replicate 8 None)"
  let ?h5 = "assign_row ?h4 b' 5 (replicate 8 None)"
  let ?h6 = "assign_row ?h5 b' 6 (replicate 8 (Some (White, Pawn)))"
  let ?h7 = "assign_row ?h6 b' 7 (back_rank White)"
  have up: "[2..<6] = [2, 3, 4, 5]" by (simp add: upt_rec)
  have eq: "Board_reset h b' = ?h7" by (simp add: Board_reset_def Let_def up)
  have 0: "isolated ?h0 b b' \<and> grid_of ?h0 b = grid_of h b"
    using assign_row_isolated [OF assms, of 0 "back_rank Black"] br by simp
  have 1: "isolated ?h1 b b' \<and> grid_of ?h1 b = grid_of h b"
    using assign_row_isolated [of ?h0 b b' 1 "replicate 8 (Some (Black, Pawn))"] 0 by simp
  have 2: "isolated ?h2 b b' \<and> grid_of ?h2 b = grid_of h b"
    using assign_row_isolated [of ?h1 b b' 2 "replicate 8 None"] 1 by simp
  have 3: "isolated ?h3 b b' \<and> grid_of ?h3 b = grid_of h b"
    using assign_row_isolated [of ?h2 b b' 3 "replicate 8 None"] 2 by simp
  have 4: "isolated ?h4 b b' \<and> grid_of ?h4 b = grid_of h b"
    using assign_row_isolated [of ?h3 b b' 4 "replicate 8 None"] 3 by simp
  have 5: "isolated ?h5 b b' \<and> grid_of ?h5 b = grid_of h b"
    using assign_row_isolated [of ?h4 b b' 5 "replicate 8 None"] 4 by simp
  have 6: "isolated ?h6 b b' \<and> grid_of ?h6 b = grid_of h b"
    using assign_row_isolated [of ?h5 b b' 6 "replicate 8 (Some (White, Pawn))"] 5 by simp
  have 7: "isolated ?h7 b b' \<and> grid_of ?h7 b = grid_of h b"
    using assign_row_isolated [of ?h6 b b' 7 "back_rank White"] 6 br by simp
  then show ?thesis unfolding eq .
qed

lemma mutate_isolated:
  assumes "isolated h b b'"
  shows "isolated (mutate b' m h) b b' \<and> grid_of (mutate b' m h) b = grid_of h b"
proof (cases m)
  case (Set r c p)
  then show ?thesis using Board_set_frame [of h b b' r c p] assms by (simp add: isolated_def)
next
  case (MovePiece src dst promo)
  then show ?thesis
    using Board_move_piece_frame [of h b b' src dst promo] assms by (simp add: isolated_def)
next
  case Reset
  then show ?thesis using Board_reset_isolated [OF assms] by simp
qed

lemma mutate_all_isolated:
  "isolated h b b' \<Longrightarrow>
   isolated (mutate_all b' ms h) b b' \<and> grid_of (mutate_all b' ms h) b = grid_of h b"
proof (induction ms arbitrary: h)
  case Nil
  then show ?case by (simp add: mutate_all_def)
next
  case (Cons m ms)
  from mutate_isolated [OF Cons.prems, of m]
  have 1: "isolated (mutate b' m h) b b'" "grid_of (mutate b' m h) b = grid_of h b" by blast+
  from Cons.IH [OF 1(1)] 1(2) show ?case by (simp add: mutate_all_def)
qed

lemma deepcopy_rows_copy:
  assumes "memo_ok n0 rws memo" and "n0 \<le> length rws" and "\<forall>ra\<in>set ras. ra < n0"
    and "deepcopy_rows rws memo ras = (rws', out)"
  shows "(\<exists>ext. rws' = rws @ ext) \<and> length out = length ras \<and>
         (\<forall>i<length ras. n0 \<le> out ! i \<and> out ! i < length rws' \<and>
                          rws' ! (out ! i) = rws ! (ras ! i))"
  using assms
proof (induction ras arbitrary: rws memo rws' out)
  case Nil
  then show ?case by simp
next
  case (Cons ra ras)
  from Cons.prems(3) have ra: "ra < n0" and rest: "\<forall>x\<in>set ras. x < n0" by simp_all
  show ?case
  proof (cases "map_of memo ra")
    case (Some ra')
    obtain rws1 out1 where r1: "deepcopy_rows rws memo ras = (rws1, out1)"
      by (cases "deepcopy_rows rws memo ras")
    from Cons.prems(4) Some r1 have res: "rws' = rws1" "out = ra' # out1" by simp_all
    from Cons.IH [OF Cons.prems(1,2) rest r1]
    obtain ext where ih: "rws1 = rws @ ext" "length out1 = length ras"
      "\<forall>i<length ras. n0 \<le> out1 ! i \<and> out1 ! i < length rws1 \<and>
                       rws1 ! (out1 ! i) = rws ! (ras ! i)" by blast
    from Some have "(ra, ra') \<in> set memo" by (rule map_of_SomeD)
    with Cons.prems(1) have m: "n0 \<le> ra'" "ra' < length rws" "rws ! ra' = rws ! ra"
      by (auto simp: memo_ok_def)
    have hd: "n0 \<le> ra' \<and> ra' < length rws1 \<and> rws1 ! ra' = rws ! ra"
      using m ih(1) by (simp add: nth_append)
    have "\<forall>i<length (ra # ras). n0 \<le> out ! i \<and> out ! i < length rws' \<and>
                       rws' ! (out ! i) = rws ! ((ra # ras) ! i)"
    proof (intro allI impI)
      fix i assume "i < length (ra # ras)"
      then show "n0 \<le> out ! i \<and> out ! i < length rws' \<and> rws' ! (out ! i) = rws ! ((ra # ras) ! i)"
        using hd ih(3) res by (cases i) simp_all
    qed
    with ih(1,2) res show ?thesis by auto
  next
    case None
    let ?rws1 = "rws @ [rws ! ra]"
    let ?memo1 = "(ra, length rws) # memo"
    obtain rws2 out2 where r2: "deepcopy_rows ?rws1 ?memo1 ras = (rws2, out2)"
      by (cases "deepcopy_rows ?rws1 ?memo1 ras")
    from Cons.prems(4) None r2 have res: "rws' = rws2" "out = length rws # out2"
      by (simp_all add: Let_def)
    have ralt: "ra < length rws" using ra Cons.prems(2) by simp
    have mo: "memo_ok n0 ?rws1 ?memo1"
      using Cons.prems(1,2) ra ralt by (auto simp: memo_ok_def nth_append)
    have le: "n0 \<le> length ?rws1" using Cons.prems(2) by simp
    from Cons.IH [OF mo le rest r2]
    obtain ext where ih: "rws2 = ?rws1 @ ext" "length out2 = length ras"
      "\<forall>i<length ras. n0 \<le> out2 ! i \<and> out2 ! i < length rws2 \<and>
                       rws2 ! (out2 ! i) = ?rws1 ! (ras ! i)" by blast
    have old: "?rws1 ! x = rws ! x" if "x < n0" for x
      using that Cons.prems(2) by (simp add: nth_append)
    have hd: "n0 \<le> length rws \<and> length rws < length rws2 \<and> rws2 ! length rws = rws ! ra"
      using Cons.prems(2) ih(1) by (simp add: nth_append)
    have "\<forall>i<length (ra # ras). n0 \<le> out ! i \<and> out ! i < length rws' \<and>
                       rws' ! (out ! i) = rws ! ((ra # ras) ! i)"
    proof (intro allI impI)
      fix i assume i: "i < length (ra # ras)"
      show "n0 \<le> out ! i \<and> out ! i < length rws' \<and> rws' ! (out ! i) = rws ! ((ra # ras) ! i)"
      proof (cases i)
        case 0
        then show ?thesis using hd res by simp
      next
        case (Suc j)
        with i have j: "j < length ras" by simp
        then have "ras ! j < n0" using rest by simp
        with ih(3) j old have "n0 \<le> out2 ! j \<and> out2 ! j < length rws2 \<and>
                       rws2 ! (out2 ! j) = rws ! (ras ! j)" by simp
        with Suc res show ?thesis by simp
      qed
    qed
    moreover have "rws' = rws @ ([rws ! ra] @ ext)" using ih(1) res by simp
    ultimately show ?thesis using ih(2) res by auto
  qed
qed

lemma Board_clone_isolated:
  assumes wb: "wf_board h b" and cl: "Board_clone h b = (h', b')"
  shows "isolated h' b b' \<and> grid_of h' b = grid_of h b \<and> grid_of h' b' = grid_of h b"
proof -
  obtain rws' out where dc: "deepcopy_rows (rows h) [] (rows_of h b) = (rws', out)"
    by (cases "deepcopy_rows (rows h) [] (rows_of h b)")
  from cl dc have h': "h' = \<lparr>boards = boards h @ [length (grids h)], grids = grids h @ [out],
                              rows = rws'\<rparr>"
    and b': "b' = length (boards h)"
    by (simp_all add: Board_clone_def rows_of_def Let_def)
  have lt: "\<forall>ra\<in>set (rows_of h b). ra < length (rows h)" using wf_boardD(4) [OF wb] by blast
  from deepcopy_rows_copy [OF _ _ lt dc, of ] 
  obtain ext where cp: "rws' = rows h @ ext" "length out = length (rows_of h b)"
    "\<forall>i<length (rows_of h b). length (rows h) \<le> out ! i \<and> out ! i < length rws' \<and>
        rws' ! (out ! i) = rows h ! (rows_of h b ! i)"
    by (auto simp: memo_ok_def)
  have rb: "rows_of h' b = rows_of h b"
    using wf_boardD(1,2) [OF wb] by (simp add: h' rows_of_def nth_append)
  have rb': "rows_of h' b' = out" by (simp add: h' b' rows_of_def nth_append)
  have old: "rows h' ! ra = rows h ! ra" if "ra < length (rows h)" for ra
    using that by (simp add: h' cp(1) nth_append)
  have w1: "wf_board h' b"
  proof (intro wf_boardI)
    show "b < length (boards h')" using wf_boardD(1) [OF wb] by (simp add: h')
    show "boards h' ! b < length (grids h')" using wf_boardD(1,2) [OF wb]
      by (simp add: h' nth_append)
    show "length (rows_of h' b) = 8" using wf_boardD(3) [OF wb] by (simp only: rb)
  next
    fix ra assume "ra \<in> set (rows_of h' b)"
    then have "ra \<in> set (rows_of h b)" by (simp only: rb)
    from wf_boardD(4) [OF wb this] old [of ra]
    show "ra < length (rows h') \<and> length (rows h' ! ra) = 8" by (simp add: h' cp(1))
  qed
  have out_i: "length (rows h) \<le> ra \<and> ra < length (rows h') \<and> length (rows h' ! ra) = 8"
    if "ra \<in> set out" for ra
  proof -
    from that obtain i where i: "i < length out" "ra = out ! i" by (auto simp: in_set_conv_nth)
    with cp(2) have il: "i < length (rows_of h b)" by simp
    with cp(3) have a: "length (rows h) \<le> out ! i" "out ! i < length rws'"
      "rws' ! (out ! i) = rows h ! (rows_of h b ! i)" by blast+
    from il have "rows_of h b ! i \<in> set (rows_of h b)" by simp
    from wf_boardD(4) [OF wb this] a i show ?thesis by (simp add: h')
  qed
  have w2: "wf_board h' b'"
  proof (intro wf_boardI)
    show "b' < length (boards h')" by (simp add: h' b')
    show "boards h' ! b' < length (grids h')" by (simp add: h' b' nth_append)
    show "length (rows_of h' b') = 8" using cp(2) wf_boardD(3) [OF wb] by (simp add: rb')
  next
    fix ra assume "ra \<in> set (rows_of h' b')"
    then show "ra < length (rows h') \<and> length (rows h' ! ra) = 8"
      using out_i by (simp add: rb')
  qed
  have s: "separate h' b b'"
  proof -
    have "boards h' ! b \<noteq> boards h' ! b'"
      using wf_boardD(1,2) [OF wb] by (simp add: h' b' nth_append)
    moreover have "set (rows_of h' b) \<inter> set (rows_of h' b') = {}"
      unfolding rb rb' using lt out_i by fastforce
    ultimately show ?thesis by (simp add: separate_def)
  qed
  have g1: "grid_of h' b = grid_of h b"
    using lt old by (intro grid_of_eqI rb) simp
  have g2: "grid_of h' b' = grid_of h b"
  proof -
    have "map (\<lambda>ra. rws' ! ra) out = map (\<lambda>ra. rows h ! ra) (rows_of h b)"
      using cp(2,3) by (intro nth_equalityI) simp_all
    then show ?thesis using rb' by (simp add: grid_of_def rows_of_def h')
  qed
  from w1 w2 s g1 g2 show ?thesis by (simp add: isolated_def)
qed

text \<open>
  Claim C7. For every store and every well-formed board \<open>b\<close> in it, \<open>clone\<close> returns a
  board \<open>b'\<close> that answers every query (\<open>get\<close>, \<open>material_score\<close>) as \<open>b\<close> does, and for
  every sequence \<open>ms\<close> of mutations (\<open>set\<close>, \<open>move_piece\<close>, \<open>reset\<close>): applied to the
  clone, it leaves every query result of \<open>b\<close> as it was; applied to \<open>b\<close>, it leaves
  every query result of the clone as it was.
\<close>

theorem clone_is_independent:
  assumes "wf_board h b" and "Board_clone h b = (h', b')"
  shows "(\<forall>r c. Board_get h' b' r c = Board_get h b r c) \<and>
         (\<forall>color. Board_material_score h' b' color = Board_material_score h b color) \<and>
         (\<forall>r c. Board_get (mutate_all b' ms h') b r c = Board_get h b r c) \<and>
         (\<forall>color. Board_material_score (mutate_all b' ms h') b color
                   = Board_material_score h b color) \<and>
         (\<forall>r c. Board_get (mutate_all b ms h') b' r c = Board_get h b r c) \<and>
         (\<forall>color. Board_material_score (mutate_all b ms h') b' color
                   = Board_material_score h b color)"
proof -
  from Board_clone_isolated [OF assms]
  have iso: "isolated h' b b'" and g: "grid_of h' b = grid_of h b" "grid_of h' b' = grid_of h b"
    by blast+
  from mutate_all_isolated [OF iso, of ms] g(1)
  have 1: "grid_of (mutate_all b' ms h') b = grid_of h b" by simp
  from mutate_all_isolated [OF isolated_sym [OF iso], of ms] g(2)
  have 2: "grid_of (mutate_all b ms h') b' = grid_of h b" by simp
  show ?thesis by (simp add: Board_get_def Board_material_score_def 1 2 g)
qed

theorem clone_is_independent_witness:
  "wf_board (fst (Board_init empty_heap)) 0 \<and>
   snd (Board_clone (fst (Board_init empty_heap)) 0) = 1 \<and>
   Board_get (fst (Board_init empty_heap)) 0 6 4 = Some (White, Pawn) \<and>
   Board_get (mutate_all 1 [Set 6 4 None, MovePiece (1, 0) (3, 0) None, Reset, Set 6 4 None]
                (fst (Board_clone (fst (Board_init empty_heap)) 0))) 1 6 4 = None \<and>
   Board_get (mutate_all 1 [Set 6 4 None, MovePiece (1, 0) (3, 0) None, Reset, Set 6 4 None]
                (fst (Board_clone (fst (Board_init empty_heap)) 0))) 0 6 4 = Some (White, Pawn) \<and>
   Board_get (mutate_all 0 [Set 6 4 None, MovePiece (1, 0) (3, 0) None]
                (fst (Board_clone (fst (Board_init empty_heap)) 0))) 0 6 4 = None \<and>
   Board_get (mutate_all 0 [Set 6 4 None, MovePiece (1, 0) (3, 0) None]
                (fst (Board_clone (fst (Board_init empty_heap)) 0))) 1 6 4 = Some (White, Pawn)"
proof -
  let ?h = "fst (Board_init empty_heap)"
  let ?h' = "fst (Board_clone ?h 0)"
  have w: "wf_board ?h 0" by code_simp
  have b': "snd (Board_clone ?h 0) = 1" by code_simp
  then have cl: "Board_clone ?h 0 = (?h', 1)" by (simp add: prod_eq_iff)
  have v: "Board_get ?h 0 6 4 = Some (White, Pawn)" by code_simp
  note t1 = clone_is_independent
    [OF w cl, of "[Set 6 4 None, MovePiece (1, 0) (3, 0) None, Reset, Set 6 4 None]"]
  note t2 = clone_is_independent [OF w cl, of "[Set 6 4 None, MovePiece (1, 0) (3, 0) None]"]
  have a: "Board_get (mutate_all 1 [Set 6 4 None, MovePiece (1, 0) (3, 0) None, Reset, Set 6 4 None]
             ?h') 1 6 4 = None" by code_simp
  have b: "Board_get (mutate_all 0 [Set 6 4 None, MovePiece (1, 0) (3, 0) None] ?h') 0 6 4 = None"
    by code_simp
  from t1 v have c: "Board_get (mutate_all 1
      [Set 6 4 None, MovePiece (1, 0) (3, 0) None, Reset, Set 6 4 None] ?h') 0 6 4
      = Some (White, Pawn)" by simp
  from t2 v have d: "Board_get (mutate_all 0 [Set 6 4 None, MovePiece (1, 0) (3, 0) None] ?h') 1 6 4
      = Some (White, Pawn)" by simp
  from w b' v a c b d show ?thesis by (intro conjI)
qed

subsection \<open>The functions on grids are the methods of one board\<close>

text \<open>
  On a board whose rows are different objects, each mutator of the store changes the
  value of the board's grid as the function of the same name on grids does, and keeps
  the board such a board; \<^verbatim>\<open>Board()\<close> and \<^verbatim>\<open>clone\<close> create such boards. So the
  properties proved above for \<open>get\<close>, \<open>set_sq\<close>, \<open>move_piece\<close>, \<open>reset\<close> and
  \<open>material_score\<close> on grids are properties of the methods.
\<close>

lemma wf_grid_of: "wf_board h b \<Longrightarrow> wf_grid (grid_of h b)"
  using wf_boardD(3,4) [of h b]
  by (auto simp: wf_grid_def grid_of_def rows_of_def list_all_iff)

lemma Board_set_sim:
  assumes gb: "good_board h b"
  shows "good_board (Board_set h b r c p) b \<and>
         grid_of (Board_set h b r c p) b = set_sq (grid_of h b) r c p"
proof (cases "in_bounds r c")
  case False
  then show ?thesis using gb by (simp add: Board_set_def set_sq_def)
next
  case True
  from gb have wb: "wf_board h b" and d: "distinct (rows_of h b)" by (simp_all add: good_board_def)
  let ?rs = "rows_of h b"
  let ?ra = "?rs ! nat r"
  let ?h = "h\<lparr>rows := (rows h)[?ra := (rows h ! ?ra)[nat c := p]]\<rparr>"
  have eq: "Board_set h b r c p = ?h" using True by (simp add: Board_set_def rows_of_def Let_def)
  from True have r8: "nat r < 8" by (auto simp: in_bounds_def ROWS_def)
  have len: "length ?rs = 8" by (rule wf_boardD(3) [OF wb])
  have ro: "rows_of ?h b = ?rs" by (simp add: rows_of_def)
  have lt: "ra < length (rows h)" if "ra \<in> set ?rs" for ra using wf_boardD(4) [OF wb that] by simp
  have w: "wf_board ?h b"
  proof (intro wf_boardI)
    show "b < length (boards ?h)" using wf_boardD(1) [OF wb] by simp
    show "boards ?h ! b < length (grids ?h)" using wf_boardD(2) [OF wb] by simp
    show "length (rows_of ?h b) = 8" using len by (simp only: ro)
  next
    fix ra assume "ra \<in> set (rows_of ?h b)"
    then have m: "ra \<in> set ?rs" by (simp only: ro)
    from wf_boardD(4) [OF wb m] show "ra < length (rows ?h) \<and> length (rows ?h ! ra) = 8"
      by (cases "ra = ?ra") (simp_all add: nth_list_update)
  qed
  have g: "grid_of ?h b = set_sq (grid_of h b) r c p"
  proof (rule nth_equalityI)
    show "length (grid_of ?h b) = length (set_sq (grid_of h b) r c p)"
      using True by (simp add: grid_of_def set_sq_def rows_of_def)
  next
    fix i assume "i < length (grid_of ?h b)"
    then have i: "i < length ?rs" by (simp add: grid_of_def rows_of_def)
    have ra_lt: "?ra < length (rows h)" using lt [of ?ra] r8 len by simp
    have L: "grid_of ?h b ! i = (if i = nat r then (rows h ! ?ra)[nat c := p] else rows h ! (?rs ! i))"
    proof (cases "i = nat r")
      case True
      then show ?thesis using i ra_lt by (simp add: grid_of_def rows_of_def)
    next
      case False
      then have "?rs ! i \<noteq> ?ra" using d i r8 len by (simp add: nth_eq_iff_index_eq)
      then show ?thesis using i False by (simp add: grid_of_def rows_of_def)
    qed
    have R: "set_sq (grid_of h b) r c p ! i
             = (if i = nat r then (rows h ! ?ra)[nat c := p] else rows h ! (?rs ! i))"
      using True i r8 len by (simp add: set_sq_def grid_of_def rows_of_def nth_list_update)
    from L R show "grid_of ?h b ! i = set_sq (grid_of h b) r c p ! i" by simp
  qed
  from w d g show ?thesis unfolding eq good_board_def ro by simp
qed

lemma Board_move_piece_sim:
  assumes gb: "good_board h b"
  shows "good_board (Board_move_piece h b src dst promo) b \<and>
         grid_of (Board_move_piece h b src dst promo) b = move_piece (grid_of h b) src dst promo"
proof -
  obtain sr sc dr dc where sd: "src = (sr, sc)" "dst = (dr, dc)" by (cases src, cases dst)
  show ?thesis
  proof (cases "get (grid_of h b) sr sc")
    case None
    then show ?thesis using gb sd by (simp add: Board_move_piece_def Board_get_def move_piece_def)
  next
    case (Some q)
    obtain color ptype where q: "q = (color, ptype)" by (cases q)
    let ?q = "Some (color, promoted color ptype dr promo)"
    let ?h1 = "Board_set h b dr dc ?q"
    have e1: "Board_move_piece h b src dst promo = Board_set ?h1 b sr sc None"
      using Some q sd by (auto simp: Board_move_piece_def Board_get_def promoted_def)
    have e2: "move_piece (grid_of h b) src dst promo
              = set_sq (set_sq (grid_of h b) dr dc ?q) sr sc None"
      using Some q sd by (simp add: move_piece_Some)
    from Board_set_sim [OF gb, of dr dc ?q]
    have 1: "good_board ?h1 b" "grid_of ?h1 b = set_sq (grid_of h b) dr dc ?q" by blast+
    from Board_set_sim [OF 1(1), of sr sc None] 1(2)
    show ?thesis unfolding e1 e2 by simp
  qed
qed

lemma assign_row_sim:
  assumes gb: "good_board h b" and r: "r < 8" and cells: "length cells = 8"
  shows "good_board (assign_row h b r cells) b \<and>
         grid_of (assign_row h b r cells) b = (grid_of h b)[r := cells]"
proof -
  from gb have wb: "wf_board h b" and d: "distinct (rows_of h b)" by (simp_all add: good_board_def)
  let ?rs = "rows_of h b"
  let ?ga = "boards h ! b"
  let ?n = "length (rows h)"
  let ?h = "h\<lparr>grids := (grids h)[?ga := (grids h ! ?ga)[r := ?n]], rows := rows h @ [cells]\<rparr>"
  have eq: "assign_row h b r cells = ?h" by (simp add: assign_row_def Let_def)
  have ro: "rows_of ?h b = ?rs[r := ?n]" using wf_boardD(2) [OF wb] by (simp add: rows_of_def)
  have len: "length ?rs = 8" by (rule wf_boardD(3) [OF wb])
  have lt: "ra < ?n" if "ra \<in> set ?rs" for ra using wf_boardD(4) [OF wb that] by simp
  have fresh: "?n \<notin> set ?rs" using lt [of ?n] by auto
  have w: "wf_board ?h b"
  proof (intro wf_boardI)
    show "b < length (boards ?h)" using wf_boardD(1) [OF wb] by simp
    show "boards ?h ! b < length (grids ?h)" using wf_boardD(2) [OF wb] by simp
    show "length (rows_of ?h b) = 8" using len by (simp add: ro)
  next
    fix ra assume "ra \<in> set (rows_of ?h b)"
    then have "ra = ?n \<or> ra \<in> set ?rs"
      unfolding ro using set_update_subset_insert [of ?rs r ?n] by auto
    then show "ra < length (rows ?h) \<and> length (rows ?h ! ra) = 8"
    proof
      assume "ra = ?n"
      then show ?thesis using cells by simp
    next
      assume "ra \<in> set ?rs"
      from wf_boardD(4) [OF wb this] show ?thesis by (simp add: nth_append)
    qed
  qed
  have dd: "distinct (?rs[r := ?n])"
    using d fresh by (simp add: distinct_list_update)
  have g: "grid_of ?h b = (grid_of h b)[r := cells]"
  proof (rule nth_equalityI)
    show "length (grid_of ?h b) = length ((grid_of h b)[r := cells])"
      using ro by (simp add: grid_of_def rows_of_def)
  next
    fix i assume "i < length (grid_of ?h b)"
    then have i: "i < length ?rs" using ro by (simp add: grid_of_def rows_of_def)
    then have "?rs ! i < ?n" using lt by simp
    then show "grid_of ?h b ! i = (grid_of h b)[r := cells] ! i"
      using i ro by (cases "i = r") (simp_all add: grid_of_def rows_of_def nth_append)
  qed
  from w dd g show ?thesis unfolding eq good_board_def ro by simp
qed

lemma Board_reset_sim:
  assumes "good_board h b"
  shows "good_board (Board_reset h b) b \<and> grid_of (Board_reset h b) b = reset (grid_of h b)"
proof -
  have br: "length (back_rank col) = 8" for col by (simp add: back_rank_def)
  let ?h0 = "assign_row h b 0 (back_rank Black)"
  let ?h1 = "assign_row ?h0 b 1 (replicate 8 (Some (Black, Pawn)))"
  let ?h2 = "assign_row ?h1 b 2 (replicate 8 None)"
  let ?h3 = "assign_row ?h2 b 3 (replicate 8 None)"
  let ?h4 = "assign_row ?h3 b 4 (replicate 8 None)"
  let ?h5 = "assign_row ?h4 b 5 (replicate 8 None)"
  let ?h6 = "assign_row ?h5 b 6 (replicate 8 (Some (White, Pawn)))"
  let ?h7 = "assign_row ?h6 b 7 (back_rank White)"
  have up: "[2..<6] = [2, 3, 4, 5]" by (simp add: upt_rec)
  have eq: "Board_reset h b = ?h7" by (simp add: Board_reset_def Let_def up)
  have eqv: "reset g = g[0 := back_rank Black, 1 := replicate 8 (Some (Black, Pawn)),
                2 := replicate 8 None, 3 := replicate 8 None, 4 := replicate 8 None,
                5 := replicate 8 None, 6 := replicate 8 (Some (White, Pawn)),
                7 := back_rank White]" for g
    by (simp add: reset_def Let_def up)
  note s0 = assign_row_sim [OF assms, of 0 "back_rank Black"]
  have 0: "good_board ?h0 b" "grid_of ?h0 b = (grid_of h b)[0 := back_rank Black]"
    using s0 br by simp_all
  note s1 = assign_row_sim [OF 0(1), of 1 "replicate 8 (Some (Black, Pawn))"]
  have 1: "good_board ?h1 b" "grid_of ?h1 b = (grid_of ?h0 b)[1 := replicate 8 (Some (Black, Pawn))]"
    using s1 by simp_all
  note s2 = assign_row_sim [OF 1(1), of 2 "replicate 8 None"]
  have 2: "good_board ?h2 b" "grid_of ?h2 b = (grid_of ?h1 b)[2 := replicate 8 None]"
    using s2 by simp_all
  note s3 = assign_row_sim [OF 2(1), of 3 "replicate 8 None"]
  have 3: "good_board ?h3 b" "grid_of ?h3 b = (grid_of ?h2 b)[3 := replicate 8 None]"
    using s3 by simp_all
  note s4 = assign_row_sim [OF 3(1), of 4 "replicate 8 None"]
  have 4: "good_board ?h4 b" "grid_of ?h4 b = (grid_of ?h3 b)[4 := replicate 8 None]"
    using s4 by simp_all
  note s5 = assign_row_sim [OF 4(1), of 5 "replicate 8 None"]
  have 5: "good_board ?h5 b" "grid_of ?h5 b = (grid_of ?h4 b)[5 := replicate 8 None]"
    using s5 by simp_all
  note s6 = assign_row_sim [OF 5(1), of 6 "replicate 8 (Some (White, Pawn))"]
  have 6: "good_board ?h6 b" "grid_of ?h6 b = (grid_of ?h5 b)[6 := replicate 8 (Some (White, Pawn))]"
    using s6 by simp_all
  note s7 = assign_row_sim [OF 6(1), of 7 "back_rank White"]
  have 7: "good_board ?h7 b" "grid_of ?h7 b = (grid_of ?h6 b)[7 := back_rank White]"
    using s7 br by simp_all
  have "grid_of ?h7 b = reset (grid_of h b)"
    unfolding eqv 7(2) 6(2) 5(2) 4(2) 3(2) 2(2) 1(2) 0(2) by simp
  with 7(1) show ?thesis unfolding eq by simp
qed

lemma Board_init_good:
  assumes "Board_init h = (h', b)"
  shows "good_board h' b \<and> grid_of h' b = new_board"
proof -
  let ?n = "length (rows h)"
  let ?h1 = "\<lparr>boards = boards h @ [length (grids h)],
              grids = grids h @ [map (\<lambda>i. ?n + i) [0..<8]],
              rows = rows h @ replicate 8 (replicate 8 None)\<rparr>"
  from assms have b: "b = length (boards h)" by (simp add: Board_init_def Let_def)
  from assms have h': "h' = Board_reset ?h1 b" unfolding b by (auto simp: Board_init_def Let_def)
  have ro: "rows_of ?h1 b = map (\<lambda>i. ?n + i) [0..<8]" by (simp add: rows_of_def b)
  have w: "wf_board ?h1 b"
  proof (intro wf_boardI)
    show "b < length (boards ?h1)" by (simp add: b)
    show "boards ?h1 ! b < length (grids ?h1)" by (simp add: b)
    show "length (rows_of ?h1 b) = 8" by (simp add: ro)
  next
    fix ra assume "ra \<in> set (rows_of ?h1 b)"
    then have "?n \<le> ra" "ra < ?n + 8" unfolding ro by auto
    then show "ra < length (rows ?h1) \<and> length (rows ?h1 ! ra) = 8"
      by (simp add: nth_append)
  qed
  have d: "distinct (rows_of ?h1 b)" unfolding ro by (simp add: distinct_map inj_on_def)
  have g: "grid_of ?h1 b = replicate 8 (replicate 8 None)"
  proof (rule nth_equalityI)
    show "length (grid_of ?h1 b) = length (replicate 8 (replicate 8 None :: cell list))"
      using ro by (simp add: grid_of_def rows_of_def)
  next
    fix i assume "i < length (grid_of ?h1 b)"
    then have i: "i < 8" using ro by (simp add: grid_of_def rows_of_def)
    have "grid_of ?h1 b ! i = rows ?h1 ! (rows_of ?h1 b ! i)"
      using i ro by (simp add: grid_of_def rows_of_def del: upt_Suc)
    also have "rows_of ?h1 b ! i = ?n + i" using i unfolding ro by (simp del: upt_Suc)
    also have "rows ?h1 ! (?n + i) = replicate 8 None" using i by (simp add: nth_append)
    finally show "grid_of ?h1 b ! i = replicate 8 (replicate 8 None) ! i" using i by simp
  qed
  from Board_reset_sim [of ?h1 b] w d g show ?thesis
    unfolding h' by (simp add: good_board_def new_board_def)
qed

lemma deepcopy_rows_distinct:
  assumes "distinct ras" and "\<forall>ra\<in>set ras. map_of memo ra = None"
    and "deepcopy_rows rws memo ras = (rws', out)"
  shows "out = [length rws ..< length rws + length ras]"
  using assms
proof (induction ras arbitrary: rws memo rws' out)
  case Nil
  then show ?case by simp
next
  case (Cons ra ras)
  let ?rws1 = "rws @ [rws ! ra]"
  let ?memo1 = "(ra, length rws) # memo"
  obtain rws2 out2 where r2: "deepcopy_rows ?rws1 ?memo1 ras = (rws2, out2)"
    by (cases "deepcopy_rows ?rws1 ?memo1 ras")
  from Cons.prems(2) have miss: "map_of memo ra = None" by simp
  with Cons.prems(3) r2 have res: "out = length rws # out2" by (simp add: Let_def)
  have "\<forall>x\<in>set ras. map_of ?memo1 x = None" using Cons.prems(1,2) by auto
  from Cons.IH [OF _ this r2] Cons.prems(1)
  have "out2 = [length ?rws1 ..< length ?rws1 + length ras]" by simp
  with res show ?case by (simp add: upt_rec)
qed

lemma Board_clone_sim:
  assumes gb: "good_board h b" and cl: "Board_clone h b = (h', b')"
  shows "good_board h' b \<and> good_board h' b' \<and> grid_of h' b = grid_of h b \<and>
         grid_of h' b' = clone (grid_of h b)"
proof -
  from gb have wb: "wf_board h b" and d: "distinct (rows_of h b)" by (simp_all add: good_board_def)
  from Board_clone_isolated [OF wb cl]
  have iso: "isolated h' b b'" and g: "grid_of h' b = grid_of h b" "grid_of h' b' = grid_of h b"
    by blast+
  obtain rws' out where dc: "deepcopy_rows (rows h) [] (rows_of h b) = (rws', out)"
    by (cases "deepcopy_rows (rows h) [] (rows_of h b)")
  from cl dc have h': "h' = \<lparr>boards = boards h @ [length (grids h)], grids = grids h @ [out],
                              rows = rws'\<rparr>"
    and b': "b' = length (boards h)"
    by (simp_all add: Board_clone_def rows_of_def Let_def)
  have "out = [length (rows h) ..< length (rows h) + length (rows_of h b)]"
    using deepcopy_rows_distinct [OF d _ dc] by simp
  then have d': "distinct (rows_of h' b')" by (simp add: h' b' rows_of_def nth_append)
  have "rows_of h' b = rows_of h b"
    using wf_boardD(1,2) [OF wb] by (simp add: h' rows_of_def nth_append)
  with d have d1: "distinct (rows_of h' b)" by simp
  from iso d1 d' g show ?thesis by (simp add: good_board_def isolated_def clone_def)
qed

end
